theory Spec2Isabelle
  imports Main "HOL-Library.AList"
begin

section \<open>Data model\<close>

text \<open>
  The two sides are the constants \<^verbatim>\<open>PLAYER_X = "X"\<close> and \<^verbatim>\<open>PLAYER_O = "O"\<close>; the piece
  kinds are the strings \<^verbatim>\<open>"P"\<close>, \<^verbatim>\<open>"R"\<close>, \<^verbatim>\<open>"N"\<close>, \<^verbatim>\<open>"B"\<close> of \<^verbatim>\<open>PIECE_TYPES\<close>.
  A piece is the object \<^verbatim>\<open>{ player, type, dir? }\<close>; a missing \<^verbatim>\<open>dir\<close> (anything for which
  \<^verbatim>\<open>typeof dir !== "number"\<close>) is \<open>None\<close>.
\<close>

datatype player = PLAYER_X | PLAYER_O

datatype piece_type = Pawn | Rook | Knight | Bishop

record piece =
  player :: player
  ptype :: piece_type
  dir :: "int option"

text \<open>
  What reading an array slot can give in JavaScript: \<^verbatim>\<open>undefined\<close> (no such slot),
  \<^verbatim>\<open>null\<close> (an empty cell) or a piece object.
\<close>

datatype cell = Undefined | Null | Piece piece

text \<open>
  The board is a JavaScript array. Cell indices arrive from callers as numbers and the
  code never checks their range, so the model keeps every integer index: \<open>elems b i\<close> is
  what \<^verbatim>\<open>b[i]\<close> reads, and \<open>len b\<close> is \<^verbatim>\<open>b.length\<close>. A write to an array index at or
  beyond the length extends the array; a write to any other integer creates an ordinary
  property that \<^verbatim>\<open>b[i]\<close> still reads but that \<^verbatim>\<open>reduce\<close>, \<^verbatim>\<open>every\<close> and \<^verbatim>\<open>map\<close> never
  visit.
\<close>

record board_t =
  elems :: "int \<Rightarrow> cell"
  len :: nat

definition is_array_index :: "int \<Rightarrow> bool" where
  "is_array_index i \<longleftrightarrow> 0 \<le> i \<and> i < 4294967295"

definition set_cell :: "board_t \<Rightarrow> int \<Rightarrow> cell \<Rightarrow> board_t" where
  "set_cell b i c =
     \<lparr>elems = (elems b)(i := c),
      len = (if is_array_index i then max (len b) (nat i + 1) else len b)\<rparr>"

definition BOARD_SIZE :: int where
  "BOARD_SIZE = 4"

definition BOARD_CELLS :: int where
  "BOARD_CELLS = BOARD_SIZE * BOARD_SIZE"

definition PIECE_TYPES :: "piece_type list" where
  "PIECE_TYPES = [Pawn, Rook, Knight, Bishop]"

text \<open>\<^verbatim>\<open>Array(BOARD_CELLS).fill(null)\<close>\<close>

definition empty_board :: board_t where
  "empty_board = \<lparr>elems = (\<lambda>i. if 0 \<le> i \<and> i < BOARD_CELLS then Null else Undefined), len = 16\<rparr>"

section \<open>Helpers\<close>

text \<open>The remainder operator \<^verbatim>\<open>%\<close> of JavaScript takes the sign of the dividend.\<close>

definition js_rem :: "int \<Rightarrow> int \<Rightarrow> int" where
  "js_rem a n = (if a < 0 then - ((- a) mod n) else a mod n)"

definition indexToRowCol :: "int \<Rightarrow> int \<times> int" where
  "indexToRowCol index = (index div BOARD_SIZE, js_rem index BOARD_SIZE)"

definition rowColToIndex :: "int \<Rightarrow> int \<Rightarrow> int" where
  "rowColToIndex row col = row * BOARD_SIZE + col"

text \<open>\<^verbatim>\<open>cell && cell.player === player\<close>\<close>

fun cell_player_is :: "cell \<Rightarrow> player \<Rightarrow> bool" where
  "cell_player_is (Piece pc) p = (player pc = p)"
| "cell_player_is Null p = False"
| "cell_player_is Undefined p = False"

text \<open>
  \<^verbatim>\<open>b.reduce((acc, cell) => acc + (cell && cell.player === player ? 1 : 0), 0)\<close>:
  the slots \<open>0 .. len - 1\<close> of the array; a hole contributes nothing.
\<close>

definition countPiecesOnBoard :: "board_t \<Rightarrow> player \<Rightarrow> nat" where
  "countPiecesOnBoard b p =
     sum_list (map (\<lambda>k. if cell_player_is (elems b (int k)) p then 1 else 0) [0..<len b])"

definition bothPlayersHaveThree :: "board_t \<Rightarrow> bool" where
  "bothPlayersHaveThree b \<longleftrightarrow>
     countPiecesOnBoard b PLAYER_X \<ge> 3 \<and> countPiecesOnBoard b PLAYER_O \<ge> 3"

section \<open>Win and draw checks\<close>

definition lines :: "(int \<times> int \<times> int \<times> int) list" where
  "lines =
     [(0, 1, 2, 3), (4, 5, 6, 7), (8, 9, 10, 11), (12, 13, 14, 15),
      (0, 4, 8, 12), (1, 5, 9, 13), (2, 6, 10, 14), (3, 7, 11, 15),
      (0, 5, 10, 15), (3, 6, 9, 12)]"

text \<open>One iteration of the loop of \<^verbatim>\<open>checkWinner\<close>: the owner of a line, if it is complete.\<close>

fun line_winner :: "board_t \<Rightarrow> int \<times> int \<times> int \<times> int \<Rightarrow> player option" where
  "line_winner b (a, b0, c, d) =
     (case elems b a of
        Piece first \<Rightarrow>
          (if cell_player_is (elems b b0) (player first)
              \<and> cell_player_is (elems b c) (player first)
              \<and> cell_player_is (elems b d) (player first)
           then Some (player first) else None)
      | _ \<Rightarrow> None)"

fun checkWinner_loop :: "board_t \<Rightarrow> (int \<times> int \<times> int \<times> int) list \<Rightarrow> player option" where
  "checkWinner_loop b [] = None"
| "checkWinner_loop b (l # ls) =
     (case line_winner b l of Some w \<Rightarrow> Some w | None \<Rightarrow> checkWinner_loop b ls)"

definition checkWinner :: "board_t \<Rightarrow> player option" where
  "checkWinner b = checkWinner_loop b lines"

text \<open>
  \<^verbatim>\<open>b.every(cell => cell !== null)\<close>. \<^verbatim>\<open>every\<close> skips holes, and a hole reads
  \<^verbatim>\<open>undefined\<close>, which is not \<^verbatim>\<open>null\<close>: both give the same answer.
\<close>

definition isBoardFull :: "board_t \<Rightarrow> bool" where
  "isBoardFull b \<longleftrightarrow> list_all (\<lambda>k. elems b (int k) \<noteq> Null) [0..<len b]"

section \<open>Movement geometry\<close>

text \<open>
  The \<^verbatim>\<open>while (r !== tr || c !== tc)\<close> loop that \<^verbatim>\<open>isLegalRookMove\<close> and
  \<^verbatim>\<open>isLegalBishopMove\<close> share word for word (in \<^verbatim>\<open>game.js\<close>, in its \<^verbatim>\<open>...OnBoard\<close>
  copies for the search, and in \<^verbatim>\<open>server.js\<close>). Nothing in the loop itself bounds the
  number of iterations, so not returning is the value \<open>None\<close>.
\<close>

partial_function (option) path_while ::
  "board_t \<Rightarrow> int \<Rightarrow> int \<Rightarrow> int \<Rightarrow> int \<Rightarrow> int \<Rightarrow> int \<Rightarrow> bool option" where
  "path_while b r c stepRow stepCol tr tc =
     (if r \<noteq> tr \<or> c \<noteq> tc then
        (if elems b (rowColToIndex r c) \<noteq> Null then Some False
         else path_while b (r + stepRow) (c + stepCol) stepRow stepCol tr tc)
      else Some True)"

definition isLegalRookMove :: "board_t \<Rightarrow> int \<Rightarrow> int \<Rightarrow> int \<Rightarrow> int \<Rightarrow> bool option" where
  "isLegalRookMove b fr fc tr tc =
     (if fr \<noteq> tr \<and> fc \<noteq> tc then Some False
      else
        let stepRow = (if fr = tr then 0 else if tr > fr then 1 else -1);
            stepCol = (if fc = tc then 0 else if tc > fc then 1 else -1)
        in path_while b (fr + stepRow) (fc + stepCol) stepRow stepCol tr tc)"

definition isLegalBishopMove :: "board_t \<Rightarrow> int \<Rightarrow> int \<Rightarrow> int \<Rightarrow> int \<Rightarrow> bool option" where
  "isLegalBishopMove b fr fc tr tc =
     (let dr = tr - fr; dc = tc - fc in
      if \<bar>dr\<bar> \<noteq> \<bar>dc\<bar> \<or> dr = 0 then Some False
      else
        let stepRow = (if dr > 0 then 1 else -1);
            stepCol = (if dc > 0 then 1 else -1)
        in path_while b (fr + stepRow) (fc + stepCol) stepRow stepCol tr tc)"

definition isLegalKnightMove :: "int \<Rightarrow> int \<Rightarrow> bool" where
  "isLegalKnightMove dr dc \<longleftrightarrow> (\<bar>dr\<bar> = 1 \<and> \<bar>dc\<bar> = 2) \<or> (\<bar>dr\<bar> = 2 \<and> \<bar>dc\<bar> = 1)"

text \<open>\<^verbatim>\<open>target && target.player !== piece.player\<close>\<close>

fun cell_player_differs :: "cell \<Rightarrow> player \<Rightarrow> bool" where
  "cell_player_differs (Piece pc) p = (player pc \<noteq> p)"
| "cell_player_differs Null p = False"
| "cell_player_differs Undefined p = False"

text \<open>
  \<^verbatim>\<open>isLegalPawnMove\<close> of \<^verbatim>\<open>game.js\<close> (and its copy \<^verbatim>\<open>isLegalPawnMoveOnBoard\<close>): forward is
  \<^verbatim>\<open>fr + dir\<close>, and a pawn standing on row 0 or row 3 may also go to the backward row.
\<close>

definition isLegalPawnMove :: "board_t \<Rightarrow> int \<Rightarrow> int \<Rightarrow> int \<Rightarrow> int \<Rightarrow> piece \<Rightarrow> bool" where
  "isLegalPawnMove b fr fc tr tc pc =
     (case dir pc of
        None \<Rightarrow> False
      | Some d \<Rightarrow>
          let forwardRow = fr + d; backwardRow = fr - d in
          if tc = fc \<and> tr = forwardRow \<and> elems b (rowColToIndex tr tc) = Null then True
          else if (fr = 0 \<or> fr = BOARD_SIZE - 1) \<and> tr = backwardRow
                  \<and> elems b (rowColToIndex tr tc) = Null then True
          else if tr = forwardRow \<and> \<bar>tc - fc\<bar> = 1
                  \<and> cell_player_differs (elems b (rowColToIndex tr tc)) (player pc) then True
          else False)"

text \<open>\<^verbatim>\<open>isLegalPawnMove\<close> of \<^verbatim>\<open>server.js\<close>: forward is \<^verbatim>\<open>fr - dir\<close>, and there is no edge rule.\<close>

definition isLegalPawnMove_server :: "board_t \<Rightarrow> int \<Rightarrow> int \<Rightarrow> int \<Rightarrow> int \<Rightarrow> piece \<Rightarrow> bool" where
  "isLegalPawnMove_server b fr fc tr tc pc =
     (case dir pc of
        None \<Rightarrow> False
      | Some d \<Rightarrow>
          let forwardRow = fr - d in
          if tc = fc \<and> tr = forwardRow \<and> elems b (rowColToIndex tr tc) = Null then True
          else if tr = forwardRow \<and> \<bar>tc - fc\<bar> = 1
                  \<and> cell_player_differs (elems b (rowColToIndex tr tc)) (player pc) then True
          else False)"

text \<open>\<^verbatim>\<open>isLegalMove\<close> of \<^verbatim>\<open>game.js\<close> (and \<^verbatim>\<open>isLegalMoveOnBoard\<close>), then that of \<^verbatim>\<open>server.js\<close>.\<close>

definition isLegalMove :: "board_t \<Rightarrow> int \<Rightarrow> int \<Rightarrow> piece \<Rightarrow> bool option" where
  "isLegalMove b fromIndex toIndex pc =
     (let (fr, fc) = indexToRowCol fromIndex;
          (tr, tc) = indexToRowCol toIndex;
          dr = tr - fr; dc = tc - fc
      in case ptype pc of
           Rook \<Rightarrow> isLegalRookMove b fr fc tr tc
         | Bishop \<Rightarrow> isLegalBishopMove b fr fc tr tc
         | Knight \<Rightarrow> Some (isLegalKnightMove dr dc)
         | Pawn \<Rightarrow> Some (isLegalPawnMove b fr fc tr tc pc))"

definition isLegalMove_server :: "board_t \<Rightarrow> int \<Rightarrow> int \<Rightarrow> piece \<Rightarrow> bool option" where
  "isLegalMove_server b fromIndex toIndex pc =
     (let (fr, fc) = indexToRowCol fromIndex;
          (tr, tc) = indexToRowCol toIndex;
          dr = tr - fr; dc = tc - fc
      in case ptype pc of
           Rook \<Rightarrow> isLegalRookMove b fr fc tr tc
         | Bishop \<Rightarrow> isLegalBishopMove b fr fc tr tc
         | Knight \<Rightarrow> Some (isLegalKnightMove dr dc)
         | Pawn \<Rightarrow> Some (isLegalPawnMove_server b fr fc tr tc pc))"

section \<open>Placement and movement in the local game (game.js)\<close>

text \<open>
  The module-level variables \<^verbatim>\<open>board\<close>, \<^verbatim>\<open>pools\<close>, \<^verbatim>\<open>currentPlayer\<close> and \<^verbatim>\<open>gameOver\<close>,
  passed explicitly. The selection variables of the user interface and the rendering
  calls hold no rule knowledge and are left out.
\<close>

record game =
  board :: board_t
  pools :: "player \<Rightarrow> piece_type list"
  currentPlayer :: player
  gameOver :: bool

text \<open>\<^verbatim>\<open>currentPlayer === PLAYER_X ? PLAYER_O : PLAYER_X\<close>\<close>

definition other_player :: "player \<Rightarrow> player" where
  "other_player p = (if p = PLAYER_X then PLAYER_O else PLAYER_X)"

text \<open>
  \<^verbatim>\<open>pool.indexOf(type)\<close>, with \<open>None\<close> for \<^verbatim>\<open>-1\<close>, and \<^verbatim>\<open>pool.splice(idx, 1)\<close>.
\<close>

fun indexOf :: "'a list \<Rightarrow> 'a \<Rightarrow> nat option" where
  "indexOf [] x = None"
| "indexOf (y # ys) x = (if y = x then Some 0 else map_option Suc (indexOf ys x))"

definition splice1 :: "'a list \<Rightarrow> nat \<Rightarrow> 'a list" where
  "splice1 xs idx = take idx xs @ drop (Suc idx) xs"

definition initGame :: game where
  "initGame =
     \<lparr>board = empty_board, pools = (\<lambda>p. PIECE_TYPES), currentPlayer = PLAYER_X,
      gameOver = False\<rparr>"

text \<open>
  \<^verbatim>\<open>afterAction\<close>: a winner or a full board ends the game (\<^verbatim>\<open>endGame\<close> sets
  \<^verbatim>\<open>gameOver\<close>); otherwise the turn passes. The automated opponent is started from a
  timer and is the separate transition \<open>aiTakeTurn\<close> below.
\<close>

definition afterAction :: "game \<Rightarrow> game" where
  "afterAction g =
     (case checkWinner (board g) of
        Some w \<Rightarrow> g\<lparr>gameOver := True\<rparr>
      | None \<Rightarrow>
          if isBoardFull (board g) then g\<lparr>gameOver := True\<rparr>
          else g\<lparr>currentPlayer := other_player (currentPlayer g)\<rparr>)"

text \<open>
  \<^verbatim>\<open>placePiece(player, type, index)\<close>. Every early \<^verbatim>\<open>return\<close> leaves the state as it
  was. A pawn of X starts with \<^verbatim>\<open>dir = -1\<close>, a pawn of O with \<^verbatim>\<open>dir = 1\<close>.
\<close>

definition placePiece :: "game \<Rightarrow> player \<Rightarrow> piece_type \<Rightarrow> int \<Rightarrow> game" where
  "placePiece g pl ty index =
     (if gameOver g then g
      else if pl \<noteq> currentPlayer g then g
      else if elems (board g) index \<noteq> Null then g
      else
        case indexOf (pools g pl) ty of
          None \<Rightarrow> g
        | Some idx \<Rightarrow>
            let pc = \<lparr>player = pl, ptype = ty,
                      dir = (if ty = Pawn then Some (if pl = PLAYER_X then -1 else 1) else None)\<rparr>
            in afterAction
                 (g\<lparr>board := set_cell (board g) index (Piece pc),
                    pools := (pools g)(pl := splice1 (pools g pl) idx)\<rparr>))"

text \<open>
  The capture statement shared by \<^verbatim>\<open>tryMovePiece\<close>, \<^verbatim>\<open>applyMove\<close> and the server:
  if the destination holds a piece of the other side, its kind is pushed onto its owner's
  pool.
\<close>

definition capture :: "(player \<Rightarrow> piece_type list) \<Rightarrow> cell \<Rightarrow> player \<Rightarrow> player \<Rightarrow> piece_type list" where
  "capture p toCell mover =
     (case toCell of
        Piece t \<Rightarrow> (if player t \<noteq> mover then p(player t := p (player t) @ [ptype t]) else p)
      | _ \<Rightarrow> p)"

text \<open>
  The statements that carry out a move, shared word for word by \<^verbatim>\<open>tryMovePiece\<close>,
  \<^verbatim>\<open>applyMove\<close> and the server: the piece is copied to the destination, the source is
  set to \<^verbatim>\<open>null\<close>, and a pawn with a direction that lands on row 0 or row 3 has the
  direction of the object at the destination set to the negated direction. The
  assignment \<^verbatim>\<open>board[toIndex].dir = ...\<close> throws a TypeError when the destination reads
  \<^verbatim>\<open>null\<close> (source and destination equal): the value \<open>None\<close>.
\<close>

definition move_cells :: "board_t \<Rightarrow> int \<Rightarrow> int \<Rightarrow> piece \<Rightarrow> board_t option" where
  "move_cells b fromIndex toIndex fromCell =
     (let b1 = set_cell b toIndex (Piece fromCell);
          b2 = set_cell b1 fromIndex Null
      in case dir fromCell of
           Some d \<Rightarrow>
             if ptype fromCell = Pawn then
               (let (row, col) = indexToRowCol toIndex in
                if row = 0 \<or> row = BOARD_SIZE - 1 then
                  (case elems b2 toIndex of
                     Piece q \<Rightarrow> Some (set_cell b2 toIndex (Piece (q\<lparr>dir := Some (- d)\<rparr>)))
                   | _ \<Rightarrow> None)
                else Some b2)
             else Some b2
         | None \<Rightarrow> Some b2)"

text \<open>
  \<^verbatim>\<open>tryMovePiece(fromIndex, toIndex)\<close>: the returned boolean and the state afterwards.
  \<open>None\<close> stands for a call that does not return.
\<close>

definition tryMovePiece :: "game \<Rightarrow> int \<Rightarrow> int \<Rightarrow> (bool \<times> game) option" where
  "tryMovePiece g fromIndex toIndex =
     (if gameOver g then Some (False, g)
      else if \<not> bothPlayersHaveThree (board g) then Some (False, g)
      else
        case elems (board g) fromIndex of
          Piece fromCell \<Rightarrow>
            if player fromCell \<noteq> currentPlayer g then Some (False, g)
            else if fromIndex = toIndex then Some (False, g)
            else
              let toCell = elems (board g) toIndex in
              if cell_player_is toCell (currentPlayer g) then Some (False, g)
              else
                (case isLegalMove (board g) fromIndex toIndex fromCell of
                   None \<Rightarrow> None
                 | Some False \<Rightarrow> Some (False, g)
                 | Some True \<Rightarrow>
                     (case move_cells (board g) fromIndex toIndex fromCell of
                        None \<Rightarrow> None
                      | Some b' \<Rightarrow>
                          Some (True,
                            afterAction
                              (g\<lparr>board := b',
                                 pools := capture (pools g) toCell (currentPlayer g)\<rparr>))))
        | _ \<Rightarrow> Some (False, g))"

section \<open>The search of the automated opponent (game.js)\<close>

text \<open>
  The search works on an explicit board \<^verbatim>\<open>b\<close> and pools \<^verbatim>\<open>p\<close>. Its legality functions
  \<^verbatim>\<open>isLegalRookMoveOnBoard\<close>, \<^verbatim>\<open>isLegalBishopMoveOnBoard\<close>, \<^verbatim>\<open>isLegalPawnMoveOnBoard\<close>,
  \<^verbatim>\<open>isLegalMoveOnBoard\<close>, \<^verbatim>\<open>countPiecesOnBoardFor\<close> and \<^verbatim>\<open>bothPlayersHaveThreeFor\<close> are
  the functions above with the board as a parameter, which the model has already.
  An action is the object \<^verbatim>\<open>{ kind: "place", index, type }\<close> or
  \<^verbatim>\<open>{ kind: "move", from, to }\<close>.
\<close>

datatype ai_action = PlaceAction int piece_type | MoveAction int int

fun clone_cell :: "cell \<Rightarrow> cell" where
  "clone_cell (Piece pc) = Piece \<lparr>player = player pc, ptype = ptype pc, dir = dir pc\<rparr>"
| "clone_cell Null = Null"
| "clone_cell Undefined = Undefined"

text \<open>\<^verbatim>\<open>b.map(...)\<close> copies the slots of the array and nothing else.\<close>

definition cloneBoard :: "board_t \<Rightarrow> board_t" where
  "cloneBoard b =
     \<lparr>elems = (\<lambda>i. if 0 \<le> i \<and> i < int (len b) then clone_cell (elems b i) else Undefined),
      len = len b\<rparr>"

definition clonePools :: "(player \<Rightarrow> piece_type list) \<Rightarrow> player \<Rightarrow> piece_type list" where
  "clonePools p = (\<lambda>pl. case pl of PLAYER_X \<Rightarrow> p PLAYER_X | PLAYER_O \<Rightarrow> p PLAYER_O)"

definition getAllLegalPlacementsFor ::
  "board_t \<Rightarrow> (player \<Rightarrow> piece_type list) \<Rightarrow> player \<Rightarrow> ai_action list" where
  "getAllLegalPlacementsFor b p pl =
     (let pool = p pl in
      if pool = [] then []
      else concat (map (\<lambda>i. if elems b i \<noteq> Null then []
                              else map (\<lambda>t. PlaceAction i t) pool) [0..15]))"

text \<open>The inner loop of \<^verbatim>\<open>getAllLegalMovesFor\<close>, over the destinations \<^verbatim>\<open>j\<close>.\<close>

definition legal_targets :: "board_t \<Rightarrow> player \<Rightarrow> int \<Rightarrow> piece \<Rightarrow> ai_action list option" where
  "legal_targets b pl i cell =
     map_option concat
       (those (map (\<lambda>j. if i = j then Some []
                         else if cell_player_is (elems b j) pl then Some []
                         else map_option (\<lambda>ok. if ok then [MoveAction i j] else [])
                                (isLegalMove b i j cell)) [0..15]))"

definition getAllLegalMovesFor ::
  "board_t \<Rightarrow> (player \<Rightarrow> piece_type list) \<Rightarrow> player \<Rightarrow> ai_action list option" where
  "getAllLegalMovesFor b p pl =
     map_option concat
       (those (map (\<lambda>i. case elems b i of
                           Piece cell \<Rightarrow>
                             if player cell \<noteq> pl then Some [] else legal_targets b pl i cell
                         | _ \<Rightarrow> Some []) [0..15]))"

definition getAllActions ::
  "board_t \<Rightarrow> (player \<Rightarrow> piece_type list) \<Rightarrow> player \<Rightarrow> ai_action list option" where
  "getAllActions b p pl =
     (let placements = getAllLegalPlacementsFor b p pl in
      if bothPlayersHaveThree b
      then map_option (\<lambda>moves. placements @ moves) (getAllLegalMovesFor b p pl)
      else Some placements)"

definition applyPlacement ::
  "board_t \<Rightarrow> (player \<Rightarrow> piece_type list) \<Rightarrow> player \<Rightarrow> piece_type \<Rightarrow> int
     \<Rightarrow> board_t \<times> (player \<Rightarrow> piece_type list)" where
  "applyPlacement b p pl ty index =
     (case indexOf (p pl) ty of
        None \<Rightarrow> (b, p)
      | Some idx \<Rightarrow>
          let pc = \<lparr>player = pl, ptype = ty,
                    dir = (if ty = Pawn then Some (if pl = PLAYER_X then -1 else 1) else None)\<rparr>
          in (set_cell b index (Piece pc), p(pl := splice1 (p pl) idx)))"

definition applyMove ::
  "board_t \<Rightarrow> (player \<Rightarrow> piece_type list) \<Rightarrow> int \<Rightarrow> int
     \<Rightarrow> (board_t \<times> (player \<Rightarrow> piece_type list)) option" where
  "applyMove b p fromIndex toIndex =
     (case elems b fromIndex of
        Piece fromCell \<Rightarrow>
          map_option (\<lambda>b'. (b', capture p (elems b toIndex) (player fromCell)))
            (move_cells b fromIndex toIndex fromCell)
      | _ \<Rightarrow> Some (b, p))"

text \<open>
  The body that both loops of \<^verbatim>\<open>minimax\<close> and the loop of \<^verbatim>\<open>getBestAiAction\<close> run for
  one action: clone, then apply the action for the side \<open>pl\<close>.
\<close>

definition apply_action ::
  "board_t \<Rightarrow> (player \<Rightarrow> piece_type list) \<Rightarrow> player \<Rightarrow> ai_action
     \<Rightarrow> (board_t \<times> (player \<Rightarrow> piece_type list)) option" where
  "apply_action b p pl a =
     (let b2 = cloneBoard b; p2 = clonePools p in
      case a of
        PlaceAction index ty \<Rightarrow> Some (applyPlacement b2 p2 pl ty index)
      | MoveAction from to \<Rightarrow> applyMove b2 p2 from to)"

definition MINIMAX_WIN :: int where "MINIMAX_WIN = 100"
definition MINIMAX_LOSS :: int where "MINIMAX_LOSS = -100"
definition MINIMAX_DRAW :: int where "MINIMAX_DRAW = 0"
definition MAX_DEPTH :: int where "MAX_DEPTH = 2"

text \<open>
  \<^verbatim>\<open>minimax(b, p, depth, isMaximizing, alpha, beta)\<close> with its two \<^verbatim>\<open>for\<close> loops:
  \<open>max_loop\<close> and \<open>min_loop\<close> take the actions still to try and the current \<^verbatim>\<open>best\<close>,
  \<^verbatim>\<open>alpha\<close> and \<^verbatim>\<open>beta\<close>. The maximizing side is O.
\<close>

function minimax ::
    "board_t \<Rightarrow> (player \<Rightarrow> piece_type list) \<Rightarrow> int \<Rightarrow> bool \<Rightarrow> int \<Rightarrow> int \<Rightarrow> int option"
  and max_loop ::
    "board_t \<Rightarrow> (player \<Rightarrow> piece_type list) \<Rightarrow> int \<Rightarrow> ai_action list \<Rightarrow> int \<Rightarrow> int \<Rightarrow> int
       \<Rightarrow> int option"
  and min_loop ::
    "board_t \<Rightarrow> (player \<Rightarrow> piece_type list) \<Rightarrow> int \<Rightarrow> ai_action list \<Rightarrow> int \<Rightarrow> int \<Rightarrow> int
       \<Rightarrow> int option"
where
  "minimax b p depth isMaximizing alpha beta =
     (if checkWinner b = Some PLAYER_O then Some (MINIMAX_WIN - depth)
      else if checkWinner b = Some PLAYER_X then Some (MINIMAX_LOSS + depth)
      else if isBoardFull b then Some MINIMAX_DRAW
      else if depth \<ge> MAX_DEPTH then Some MINIMAX_DRAW
      else
        case getAllActions b p (if isMaximizing then PLAYER_O else PLAYER_X) of
          None \<Rightarrow> None
        | Some actions \<Rightarrow>
            if actions = [] then Some MINIMAX_DRAW
            else if isMaximizing then max_loop b p depth actions MINIMAX_LOSS alpha beta
            else min_loop b p depth actions MINIMAX_WIN alpha beta)"
| "max_loop b p depth [] best alpha beta = Some best"
| "max_loop b p depth (a # as) best alpha beta =
     (case apply_action b p PLAYER_O a of
        None \<Rightarrow> None
      | Some (b2, p2) \<Rightarrow>
          (case minimax b2 p2 (depth + 1) False alpha beta of
             None \<Rightarrow> None
           | Some score \<Rightarrow>
               let best' = max best score; alpha' = max alpha score in
               if beta \<le> alpha' then Some best'
               else max_loop b p depth as best' alpha' beta))"
| "min_loop b p depth [] best alpha beta = Some best"
| "min_loop b p depth (a # as) best alpha beta =
     (case apply_action b p PLAYER_X a of
        None \<Rightarrow> None
      | Some (b2, p2) \<Rightarrow>
          (case minimax b2 p2 (depth + 1) True alpha beta of
             None \<Rightarrow> None
           | Some score \<Rightarrow>
               let best' = min best score; beta' = min beta score in
               if beta' \<le> alpha then Some best'
               else min_loop b p depth as best' alpha beta'))"
  by pat_completeness auto
termination
proof (relation "measures
    [\<lambda>x. case x of
            Inl (b, p, depth, m, al, be) \<Rightarrow> (if depth < 2 then 2 * nat (2 - depth) + 1 else 0)
          | Inr (Inl (b, p, depth, as, best, al, be)) \<Rightarrow> (if depth < 2 then 2 * nat (2 - depth) else 1)
          | Inr (Inr (b, p, depth, as, best, al, be)) \<Rightarrow> (if depth < 2 then 2 * nat (2 - depth) else 1),
     \<lambda>x. case x of
            Inl (b, p, depth, m, al, be) \<Rightarrow> 0
          | Inr (Inl (b, p, depth, as, best, al, be)) \<Rightarrow> length as
          | Inr (Inr (b, p, depth, as, best, al, be)) \<Rightarrow> length as]")
qed (auto simp: MAX_DEPTH_def)

text \<open>
  \<^verbatim>\<open>getBestAiAction()\<close>, reading the live \<^verbatim>\<open>board\<close> and \<^verbatim>\<open>pools\<close>; \<open>best_loop\<close> is its
  \<^verbatim>\<open>for\<close> loop. The inner \<open>None\<close> is the returned \<^verbatim>\<open>null\<close>.
\<close>

fun best_loop ::
  "board_t \<Rightarrow> (player \<Rightarrow> piece_type list) \<Rightarrow> ai_action list \<Rightarrow> int \<Rightarrow> ai_action option
     \<Rightarrow> ai_action option option" where
  "best_loop b p [] bestScore bestAction = Some bestAction"
| "best_loop b p (a # as) bestScore bestAction =
     (case apply_action b p PLAYER_O a of
        None \<Rightarrow> None
      | Some (b2, p2) \<Rightarrow>
          (case minimax b2 p2 0 False MINIMAX_LOSS MINIMAX_WIN of
             None \<Rightarrow> None
           | Some score \<Rightarrow>
               if score > bestScore then best_loop b p as score (Some a)
               else best_loop b p as bestScore bestAction))"

definition getBestAiAction ::
  "board_t \<Rightarrow> (player \<Rightarrow> piece_type list) \<Rightarrow> ai_action option option" where
  "getBestAiAction b p =
     (case getAllActions (cloneBoard b) (clonePools p) PLAYER_O of
        None \<Rightarrow> None
      | Some actions \<Rightarrow>
          if actions = [] then Some None
          else best_loop b p actions MINIMAX_LOSS None)"

text \<open>
  \<^verbatim>\<open>aiTakeTurn()\<close>: with no action the turn is handed back to X; otherwise the action
  goes through \<^verbatim>\<open>placePiece\<close> or \<^verbatim>\<open>tryMovePiece\<close>.
\<close>

definition aiTakeTurn :: "game \<Rightarrow> game option" where
  "aiTakeTurn g =
     (if gameOver g then Some g
      else if currentPlayer g \<noteq> PLAYER_O then Some g
      else
        case getBestAiAction (board g) (pools g) of
          None \<Rightarrow> None
        | Some None \<Rightarrow> Some (g\<lparr>currentPlayer := PLAYER_X\<rparr>)
        | Some (Some (PlaceAction index ty)) \<Rightarrow> Some (placePiece g PLAYER_O ty index)
        | Some (Some (MoveAction from to)) \<Rightarrow> map_option snd (tryMovePiece g from to))"

section \<open>The authoritative server (server.js)\<close>

text \<open>
  The game state of a room is the object of \<^verbatim>\<open>createInitialGameState\<close>: the fields of
  the local game and \<^verbatim>\<open>winner\<close>.
\<close>

record gameState = game +
  winner :: "player option"

definition createInitialGameState :: gameState where
  "createInitialGameState =
     \<lparr>board = empty_board, pools = (\<lambda>p. PIECE_TYPES), currentPlayer = PLAYER_X,
      gameOver = False, winner = None\<rparr>"

text \<open>
  The payload of \<^verbatim>\<open>makeMove\<close>: \<^verbatim>\<open>{ action, index, type, fromIndex, toIndex }\<close>. The
  handler compares \<^verbatim>\<open>action\<close> with \<^verbatim>\<open>"place"\<close> and with \<^verbatim>\<open>"move"\<close>; \<open>DataOther\<close> is any
  other value of the field. Indices are integers; a \<^verbatim>\<open>type\<close> that is not one of the four
  kinds is in no pool and is refused like a kind that is absent.
\<close>

datatype move_data = DataPlace int piece_type | DataMove int int | DataOther

text \<open>The messages of the \<^verbatim>\<open>error\<close> event.\<close>

datatype error_message =
    NotInARoom | RoomNotFound | GameIsOver | NotYourTurn | CellIsNotEmpty | PieceNotAvailable
  | CannotMoveYet | InvalidMove | CannotCaptureOwnPiece | IllegalMove

text \<open>What the handler emits: an \<^verbatim>\<open>error\<close> to the sender, or \<^verbatim>\<open>gameStateUpdate\<close> to the room.\<close>

datatype reply = Error error_message | GameStateUpdate gameState

text \<open>
  The end of the \<^verbatim>\<open>makeMove\<close> handler: the winner check, the draw check, the turn
  change, and the broadcast of the state.
\<close>

definition finish_move :: "gameState \<Rightarrow> gameState \<times> reply" where
  "finish_move gs =
     (let gs' =
        (case checkWinner (board gs) of
           Some w \<Rightarrow> gs\<lparr>gameOver := True, winner := Some w\<rparr>
         | None \<Rightarrow>
             if isBoardFull (board gs) then gs\<lparr>gameOver := True\<rparr>
             else gs\<lparr>currentPlayer := other_player (currentPlayer gs)\<rparr>)
      in (gs', GameStateUpdate gs'))"

text \<open>
  The \<^verbatim>\<open>makeMove\<close> handler from the point where the room's game state and the sender's
  side \<open>pid\<close> (\<^verbatim>\<open>playerInfo.playerId\<close>) are known. It returns the game state afterwards
  and what was emitted; \<open>None\<close> stands for a call that does not return. A pawn of X
  starts with \<^verbatim>\<open>dir = -1\<close>, a pawn of O with \<^verbatim>\<open>dir = 1\<close>, negated when X places on
  cells 12 to 15 or O on cells 0 to 3.
\<close>

definition makeMove :: "gameState \<Rightarrow> player \<Rightarrow> move_data \<Rightarrow> (gameState \<times> reply) option" where
  "makeMove gs pid d =
     (if gameOver gs then Some (gs, Error GameIsOver)
      else if currentPlayer gs \<noteq> pid then Some (gs, Error NotYourTurn)
      else
        case d of
          DataPlace index ty \<Rightarrow>
            if elems (board gs) index \<noteq> Null then Some (gs, Error CellIsNotEmpty)
            else
              (case indexOf (pools gs pid) ty of
                 None \<Rightarrow> Some (gs, Error PieceNotAvailable)
               | Some idx \<Rightarrow>
                   let d0 = (if pid = PLAYER_X then -1 else 1);
                       pc = \<lparr>player = pid, ptype = ty,
                             dir = (if ty = Pawn then
                                      Some (if (index \<in> set [12, 13, 14, 15] \<and> pid = PLAYER_X)
                                               \<or> (index \<in> set [0, 1, 2, 3] \<and> pid = PLAYER_O)
                                            then -1 * d0 else d0)
                                    else None)\<rparr>
                   in Some (finish_move
                        (gs\<lparr>board := set_cell (board gs) index (Piece pc),
                            pools := (pools gs)(pid := splice1 (pools gs pid) idx)\<rparr>)))
        | DataMove fromIndex toIndex \<Rightarrow>
            if \<not> bothPlayersHaveThree (board gs) then Some (gs, Error CannotMoveYet)
            else
              (case elems (board gs) fromIndex of
                 Piece fromCell \<Rightarrow>
                   if player fromCell \<noteq> pid then Some (gs, Error InvalidMove)
                   else
                     let toCell = elems (board gs) toIndex in
                     if cell_player_is toCell pid then Some (gs, Error CannotCaptureOwnPiece)
                     else
                       (case isLegalMove_server (board gs) fromIndex toIndex fromCell of
                          None \<Rightarrow> None
                        | Some False \<Rightarrow> Some (gs, Error IllegalMove)
                        | Some True \<Rightarrow>
                            (case move_cells (board gs) fromIndex toIndex fromCell of
                               None \<Rightarrow> None
                             | Some b' \<Rightarrow>
                                 Some (finish_move
                                   (gs\<lparr>board := b',
                                       pools := capture (pools gs) toCell pid\<rparr>))))
               | _ \<Rightarrow> Some (gs, Error InvalidMove))
        | DataOther \<Rightarrow> Some (finish_move gs))"

subsection \<open>Rooms and the session registry\<close>

text \<open>
  \<^verbatim>\<open>rooms\<close> maps a room id to \<^verbatim>\<open>{ players: [socketId, ...], gameState }\<close> and \<^verbatim>\<open>players\<close>
  maps a socket id to \<^verbatim>\<open>{ roomId, playerId }\<close>. Both are JavaScript \<^verbatim>\<open>Map\<close>s, kept here
  as association lists in insertion order.
\<close>

type_synonym socket_id = nat
type_synonym room_id = nat

record playerInfo =
  roomId :: room_id
  playerId :: player

record room =
  players :: "socket_id list"
  gameState :: gameState

record server =
  rooms :: "(room_id \<times> room) list"
  registry :: "(socket_id \<times> playerInfo) list"

datatype disconnect_reason = OpponentDisconnected | Waiting

text \<open>The events a handler emits, with their addressee.\<close>

datatype message =
    ErrorMessage error_message
  | GameStateUpdateMessage gameState
  | PlayerDisconnected player disconnect_reason
  | OnlineCount nat

datatype emitted = ToSocket socket_id message | ToRoom room_id message | ToAll message

text \<open>The \<^verbatim>\<open>makeMove\<close> handler of a socket.\<close>

definition on_makeMove :: "server \<Rightarrow> socket_id \<Rightarrow> move_data \<Rightarrow> (server \<times> emitted list) option" where
  "on_makeMove s sid d =
     (case map_of (registry s) sid of
        None \<Rightarrow> Some (s, [ToSocket sid (ErrorMessage NotInARoom)])
      | Some playerInfo \<Rightarrow>
          (case map_of (rooms s) (roomId playerInfo) of
             None \<Rightarrow> Some (s, [ToSocket sid (ErrorMessage RoomNotFound)])
           | Some room \<Rightarrow>
               (case makeMove (gameState room) (playerId playerInfo) d of
                  None \<Rightarrow> None
                | Some (gs', Error e) \<Rightarrow> Some (s, [ToSocket sid (ErrorMessage e)])
                | Some (gs', GameStateUpdate u) \<Rightarrow>
                    Some (s\<lparr>rooms := AList.update (roomId playerInfo) (room\<lparr>gameState := gs'\<rparr>) (rooms s)\<rparr>,
                          [ToRoom (roomId playerInfo) (GameStateUpdateMessage u)]))))"


section \<open>Vocabulary of the specification\<close>

text \<open>
  A board as the data model of the specification has it: exactly the 16 cells
  \<open>0 .. 15\<close>, each empty or holding a piece, and nothing stored outside them.
\<close>
definition wf_board :: "board_t \<Rightarrow> bool" where
  "wf_board b \<longleftrightarrow> len b = 16 \<and> (\<forall>i. if 0 \<le> i \<and> i < 16 then elems b i \<noteq> Undefined else elems b i = Undefined)"

fun occupied :: "cell \<Rightarrow> bool" where
  "occupied (Piece pc) = True"
| "occupied Null = False"
| "occupied Undefined = False"

definition on_board :: "int \<Rightarrow> int \<Rightarrow> bool" where
  "on_board r c \<longleftrightarrow> 0 \<le> r \<and> r < 4 \<and> 0 \<le> c \<and> c < 4"

definition cells_between :: "int \<Rightarrow> int \<Rightarrow> int \<Rightarrow> int \<Rightarrow> (int \<times> int) list" where
  "cells_between fr fc tr tc =
     map (\<lambda>k. (fr + int k * sgn (tr - fr), fc + int k * sgn (tc - fc)))
       [1..<nat (max \<bar>tr - fr\<bar> \<bar>tc - fc\<bar>)]"

text \<open>
  The ten lines of the specification, computed from the geometry: the four rows, the four
  columns and the two diagonals, as lists of cell indices.
\<close>

definition spec_lines :: "int list list" where
  "spec_lines =
     map (\<lambda>r. map (\<lambda>c. rowColToIndex r c) [0..3]) [0..3]
     @ map (\<lambda>c. map (\<lambda>r. rowColToIndex r c) [0..3]) [0..3]
     @ [map (\<lambda>i. rowColToIndex i i) [0..3], map (\<lambda>i. rowColToIndex i (3 - i)) [0..3]]"

text \<open>A side has a line when all four cells of one of the ten lines hold pieces of that side.\<close>

definition has_line :: "board_t \<Rightarrow> player \<Rightarrow> bool" where
  "has_line b p \<longleftrightarrow> list_ex (list_all (\<lambda>i. cell_player_is (elems b i) p)) spec_lines"

definition all_cells_occupied :: "board_t \<Rightarrow> bool" where
  "all_cells_occupied b \<longleftrightarrow> list_all (\<lambda>i. occupied (elems b i)) [0..15]"

text \<open>
  The Outcome Detector \<^verbatim>\<open>detect(board) -> None | Winner(side) | Draw\<close>: the two checks in
  the order in which \<^verbatim>\<open>afterAction\<close>, the \<^verbatim>\<open>makeMove\<close> handler and \<^verbatim>\<open>minimax\<close> all run
  them.
\<close>

datatype outcome = Winner player | Draw | Undecided

definition detect :: "board_t \<Rightarrow> outcome" where
  "detect b =
     (case checkWinner b of
        Some w \<Rightarrow> Winner w
      | None \<Rightarrow> if isBoardFull b then Draw else Undecided)"

text \<open>A board written out as the list of its slots.\<close>

definition board_of :: "cell list \<Rightarrow> board_t" where
  "board_of cs = \<lparr>elems = (\<lambda>i. if 0 \<le> i \<and> i < int (length cs) then cs ! nat i else Undefined), len = length cs\<rparr>"


text \<open>The cells of the board: the indices \<open>0 .. 15\<close>.\<close>

definition cell_on_board :: "int \<Rightarrow> bool" where
  "cell_on_board i \<longleftrightarrow> 0 \<le> i \<and> i < 16"

text \<open>A \<^verbatim>\<open>makeMove\<close> payload all of whose indices are cells of the board.\<close>

fun data_on_board :: "move_data \<Rightarrow> bool" where
  "data_on_board (DataPlace index ty) = cell_on_board index"
| "data_on_board (DataMove fromIndex toIndex) = (cell_on_board fromIndex \<and> cell_on_board toIndex)"
| "data_on_board DataOther = True"

text \<open>
  The material of a side: its pieces counted on the board (\<^verbatim>\<open>countPiecesOnBoard\<close>) plus
  the entries of its pool.
\<close>

definition material :: "board_t \<Rightarrow> (player \<Rightarrow> piece_type list) \<Rightarrow> player \<Rightarrow> nat" where
  "material b p pl = countPiecesOnBoard b pl + length (p pl)"

definition conserved :: "board_t \<Rightarrow> (player \<Rightarrow> piece_type list) \<Rightarrow> bool" where
  "conserved b p \<longleftrightarrow> wf_board b \<and> (\<forall>pl. material b p pl = 4)"

text \<open>Every pawn on the board carries the direction \<open>1\<close> or \<open>- 1\<close>.\<close>

definition pawns_face_one_way :: "board_t \<Rightarrow> bool" where
  "pawns_face_one_way b \<longleftrightarrow>
     (\<forall>i pc. elems b i = Piece pc \<longrightarrow> ptype pc = Pawn \<longrightarrow> dir pc = Some 1 \<or> dir pc = Some (- 1))"

text \<open>
  The game states of a room that the \<^verbatim>\<open>makeMove\<close> handler can produce from the initial
  state, whatever the payloads; then those it produces when every index sent is a cell
  of the board. A rejected action leaves the state as it is, so these are the states
  reachable by accepted actions.
\<close>

inductive server_reachable :: "gameState \<Rightarrow> bool" where
  init: "server_reachable createInitialGameState"
| step: "server_reachable gs \<Longrightarrow> makeMove gs pid d = Some (gs', r) \<Longrightarrow> server_reachable gs'"

inductive server_reachable_on_board :: "gameState \<Rightarrow> bool" where
  init: "server_reachable_on_board createInitialGameState"
| step: "server_reachable_on_board gs \<Longrightarrow> data_on_board d \<Longrightarrow> makeMove gs pid d = Some (gs', r)
         \<Longrightarrow> server_reachable_on_board gs'"

text \<open>A sequence of \<^verbatim>\<open>makeMove\<close> events, each with the side of its sender.\<close>

fun play :: "(player \<times> move_data) list \<Rightarrow> gameState \<Rightarrow> gameState option" where
  "play [] gs = Some gs"
| "play ((pid, d) # rest) gs =
     (case makeMove gs pid d of None \<Rightarrow> None | Some (gs', r) \<Rightarrow> play rest gs')"

text \<open>
  The states of the local game: reached from \<^verbatim>\<open>initGame\<close> by calls of \<^verbatim>\<open>placePiece\<close> and
  \<^verbatim>\<open>tryMovePiece\<close> with any arguments and by turns of the automated opponent; then
  those reached when the indices passed in are cells of the board, as the click and drop
  handlers pass them.
\<close>

inductive local_reachable :: "game \<Rightarrow> bool" where
  init: "local_reachable initGame"
| place: "local_reachable g \<Longrightarrow> local_reachable (placePiece g pl ty index)"
| move: "local_reachable g \<Longrightarrow> tryMovePiece g fromIndex toIndex = Some (ok, g')
         \<Longrightarrow> local_reachable g'"
| ai: "local_reachable g \<Longrightarrow> aiTakeTurn g = Some g' \<Longrightarrow> local_reachable g'"


text \<open>
  What can be said of every action the enumeration lists for a side: its indices are
  cells of the board, and a move starts from a piece of that side and goes elsewhere.
\<close>

fun enumerated :: "board_t \<Rightarrow> player \<Rightarrow> ai_action \<Rightarrow> bool" where
  "enumerated b pl (PlaceAction i ty) = cell_on_board i"
| "enumerated b pl (MoveAction i j) =
     (cell_on_board i \<and> cell_on_board j \<and> i \<noteq> j \<and> cell_player_is (elems b i) pl)"

section \<open>Example positions\<close>

text \<open>A rook of X on cell 0 and a knight of O on cell 2, two cells further along row 0.\<close>

definition blocked_row_board :: board_t where
  "blocked_row_board =
     set_cell (set_cell empty_board 0 (Piece \<lparr>player = PLAYER_X, ptype = Rook, dir = None\<rparr>))
       2 (Piece \<lparr>player = PLAYER_O, ptype = Knight, dir = None\<rparr>)"

definition mk :: "player \<Rightarrow> piece_type \<Rightarrow> cell" where
  "mk pl ty = Piece \<lparr>player = pl, ptype = ty, dir = None\<rparr>"

definition x_row_board :: board_t where
  "x_row_board = board_of
     [mk PLAYER_X Rook, mk PLAYER_X Knight, mk PLAYER_X Bishop, Piece \<lparr>player = PLAYER_X, ptype = Pawn, dir = Some 1\<rparr>,
      Null, Null, Null, Null,
      Null, Null, Null, Null,
      Null, Null, Null, Null]"

definition o_column_board :: board_t where
  "o_column_board = board_of
     [Null, mk PLAYER_O Rook, Null, Null,
      Null, mk PLAYER_O Knight, Null, mk PLAYER_X Rook,
      Null, mk PLAYER_O Bishop, Null, Null,
      Null, Piece \<lparr>player = PLAYER_O, ptype = Pawn, dir = Some 1\<rparr>, mk PLAYER_X Knight, Null]"

definition full_board :: board_t where
  "full_board = board_of
     [mk PLAYER_X Rook, mk PLAYER_X Knight, mk PLAYER_O Rook, mk PLAYER_O Knight,
      mk PLAYER_O Bishop, mk PLAYER_O Rook, mk PLAYER_X Bishop, mk PLAYER_X Rook,
      mk PLAYER_X Knight, mk PLAYER_X Bishop, mk PLAYER_O Knight, mk PLAYER_O Bishop,
      mk PLAYER_O Rook, mk PLAYER_O Knight, mk PLAYER_X Rook, mk PLAYER_X Knight]"

text \<open>The pawn object that \<^verbatim>\<open>placePiece\<close> builds for X.\<close>

definition x_pawn :: piece where
  "x_pawn = \<lparr>player = PLAYER_X, ptype = Pawn, dir = Some (- 1)\<rparr>"





text \<open>
  Six placements that put a rook of O next to a rook of X, followed by the rook of X
  capturing it.
\<close>

definition flexible_position :: "(player \<times> move_data) list" where
  "flexible_position =
     [(PLAYER_X, DataPlace 0 Rook), (PLAYER_O, DataPlace 1 Rook),
      (PLAYER_X, DataPlace 5 Knight), (PLAYER_O, DataPlace 6 Knight),
      (PLAYER_X, DataPlace 10 Bishop), (PLAYER_O, DataPlace 11 Bishop)]"

definition after_capture :: "(player \<times> move_data) list" where
  "after_capture = flexible_position @ [(PLAYER_X, DataMove 0 1)]"

text \<open>X places its pawn on cell 12, in the last row.\<close>

definition x_pawn_on_last_row :: "(player \<times> move_data) list" where
  "x_pawn_on_last_row = [(PLAYER_X, DataPlace 12 Pawn)]"


section \<open>Boards of sixteen cells\<close>

lemma wf_empty_board: "wf_board empty_board"
  by (simp add: wf_board_def empty_board_def BOARD_CELLS_def BOARD_SIZE_def)

lemma wf_set_cell:
  "wf_board b \<Longrightarrow> 0 \<le> i \<Longrightarrow> i < 16 \<Longrightarrow> c \<noteq> Undefined \<Longrightarrow> wf_board (set_cell b i c)"
  by (auto simp: wf_board_def set_cell_def is_array_index_def)

lemma wf_blocked_row_board: "wf_board blocked_row_board"
  unfolding blocked_row_board_def by (intro wf_set_cell wf_empty_board) simp_all

lemma wf_board_of:
  "length cs = 16 \<Longrightarrow> list_all (\<lambda>c. c \<noteq> Undefined) cs \<Longrightarrow> wf_board (board_of cs)"
  by (auto simp: wf_board_def board_of_def list_all_length)

lemma wf_examples: "wf_board x_row_board" "wf_board o_column_board" "wf_board full_board"
  unfolding x_row_board_def o_column_board_def full_board_def
  by (rule wf_board_of; simp add: mk_def)+

lemma upto_0_15: "[0..15] = [0, 1, 2, 3, 4, 5, 6, 7, 8, 9, 10, 11, 12, 13, 14, (15::int)]"
  by (simp add: upto_rec1)

lemma upt_0_16: "[0..<16] = [0, 1, 2, 3, 4, 5, 6, 7, 8, 9, 10, 11, 12, 13, 14, (15::nat)]"
  by (simp add: upt_rec)

lemma elems_set_cell: "elems (set_cell b i c) j = (if j = i then c else elems b j)"
  by (simp add: set_cell_def)

lemma len_set_cell_within: "0 \<le> i \<Longrightarrow> nat i < len b \<Longrightarrow> len (set_cell b i c) = len b"
  by (simp add: set_cell_def)

lemma countPiecesOnBoard_sum:
  "countPiecesOnBoard b pl = (\<Sum>k<len b. if cell_player_is (elems b (int k)) pl then 1 else 0)"
  by (simp add: countPiecesOnBoard_def interv_sum_list_conv_sum_set_nat atLeast0LessThan)

lemma count_set_cell:
  assumes "0 \<le> i" "nat i < len b"
  shows "countPiecesOnBoard (set_cell b i c) pl + (if cell_player_is (elems b i) pl then 1 else 0)
       = countPiecesOnBoard b pl + (if cell_player_is c pl then 1 else 0)"
proof -
  let ?g = "\<lambda>b k. if cell_player_is (elems b (int k)) pl then 1 else (0::nat)"
  let ?b' = "set_cell b i c"
  have j: "nat i \<in> {..<len b}" using assms by simp
  have ii: "int (nat i) = i" using assms by simp
  have same: "?g ?b' k = ?g b k" if "k \<in> {..<len b} - {nat i}" for k
  proof -
    have "int k \<noteq> i" using that ii by auto
    then show ?thesis by (simp add: elems_set_cell)
  qed
  have "countPiecesOnBoard ?b' pl = (\<Sum>k<len b. ?g ?b' k)"
    by (simp add: countPiecesOnBoard_sum len_set_cell_within[OF assms])
  also have "\<dots> = ?g ?b' (nat i) + (\<Sum>k\<in>{..<len b} - {nat i}. ?g ?b' k)"
    by (rule sum.remove[OF finite_lessThan j])
  also have "(\<Sum>k\<in>{..<len b} - {nat i}. ?g ?b' k) = (\<Sum>k\<in>{..<len b} - {nat i}. ?g b k)"
    by (rule sum.cong[OF refl same])
  finally have "countPiecesOnBoard ?b' pl
      = ?g ?b' (nat i) + (\<Sum>k\<in>{..<len b} - {nat i}. ?g b k)" .
  moreover have "?g ?b' (nat i) = (if cell_player_is c pl then 1 else 0)"
    unfolding ii by (simp add: elems_set_cell)
  ultimately have new: "countPiecesOnBoard ?b' pl
      = (if cell_player_is c pl then 1 else 0) + (\<Sum>k\<in>{..<len b} - {nat i}. ?g b k)"
    by simp
  have "countPiecesOnBoard b pl = ?g b (nat i) + (\<Sum>k\<in>{..<len b} - {nat i}. ?g b k)"
    unfolding countPiecesOnBoard_sum by (rule sum.remove[OF finite_lessThan j])
  then have old: "countPiecesOnBoard b pl
      = (if cell_player_is (elems b i) pl then 1 else 0) + (\<Sum>k\<in>{..<len b} - {nat i}. ?g b k)"
    unfolding ii .
  show ?thesis unfolding new old by simp
qed

lemma wf_board_len: "wf_board b \<Longrightarrow> len b = 16"
  by (simp add: wf_board_def)

lemma wf_board_in: "wf_board b \<Longrightarrow> 0 \<le> i \<Longrightarrow> i < 16 \<Longrightarrow> elems b i \<noteq> Undefined"
  unfolding wf_board_def by metis

lemma wf_board_out: "wf_board b \<Longrightarrow> elems b i \<noteq> Undefined \<Longrightarrow> 0 \<le> i \<and> i < 16"
  unfolding wf_board_def by metis

lemma count_set_cell_wf:
  assumes "wf_board b" "0 \<le> i" "i < 16"
  shows "countPiecesOnBoard (set_cell b i c) pl + (if cell_player_is (elems b i) pl then 1 else 0)
       = countPiecesOnBoard b pl + (if cell_player_is c pl then 1 else 0)"
  using count_set_cell[of i b c pl] assms by (simp add: wf_board_len)

lemma indexOf_Some_less: "indexOf xs x = Some i \<Longrightarrow> i < length xs"
  by (induction xs arbitrary: i) (auto split: if_splits)

lemma indexOf_Some_nth: "indexOf xs x = Some i \<Longrightarrow> xs ! i = x"
  by (induction xs arbitrary: i) (auto split: if_splits)

lemma indexOf_None_iff: "indexOf xs x = None \<longleftrightarrow> x \<notin> set xs"
  by (induction xs) auto

lemma length_splice1: "i < length xs \<Longrightarrow> Suc (length (splice1 xs i)) = length xs"
  by (simp add: splice1_def)

lemma move_cells_Some:
  assumes "move_cells b f t fromCell = Some b'"
  shows "\<exists>q. player q = player fromCell \<and> ptype q = ptype fromCell
           \<and> (dir q = dir fromCell \<or> (\<exists>d. dir fromCell = Some d \<and> dir q = Some (- d)))
           \<and> (b' = set_cell (set_cell b t (Piece fromCell)) f Null
               \<or> (f \<noteq> t \<and> b' = set_cell (set_cell (set_cell b t (Piece fromCell)) f Null) t (Piece q)))"
proof -
  let ?b2 = "set_cell (set_cell b t (Piece fromCell)) f Null"
  show ?thesis
  proof (cases "b' = ?b2")
    case True
    then show ?thesis by (intro exI[of _ fromCell]) simp
  next
    case False
    with assms obtain d q where d: "dir fromCell = Some d" and q: "elems ?b2 t = Piece q"
      and b': "b' = set_cell ?b2 t (Piece (q\<lparr>dir := Some (- d)\<rparr>))"
      by (auto simp: move_cells_def Let_def split: option.splits if_splits prod.splits cell.splits)
    from q have ft: "f \<noteq> t" by (auto simp: elems_set_cell split: if_splits)
    with q have "q = fromCell" by (simp add: elems_set_cell)
    with d b' ft show ?thesis
      by (intro exI[of _ "fromCell\<lparr>dir := Some (- d)\<rparr>"]) simp
  qed
qed


section \<open>Sliding moves\<close>

lemma path_while_here: "path_while b r c sr sc r c = Some True"
  by (subst path_while.simps) simp

lemma path_while_steps:
  assumes "sr \<noteq> 0 \<or> sc \<noteq> 0"
  shows "path_while b r c sr sc (r + int n * sr) (c + int n * sc)
     = Some (list_all (\<lambda>k. elems b (rowColToIndex (r + int k * sr) (c + int k * sc)) = Null) [0..<n])"
  using assms
proof (induction n arbitrary: r c)
  case 0
  then show ?case by (simp add: path_while_here)
next
  case (Suc n)
  have ne: "r \<noteq> r + int (Suc n) * sr \<or> c \<noteq> c + int (Suc n) * sc"
    using Suc.prems by auto
  have tgt: "r + int (Suc n) * sr = (r + sr) + int n * sr" "c + int (Suc n) * sc = (c + sc) + int n * sc"
    by (simp_all add: algebra_simps)
  have IH: "path_while b (r + sr) (c + sc) sr sc (r + int (Suc n) * sr) (c + int (Suc n) * sc)
     = Some (list_all (\<lambda>k. elems b (rowColToIndex ((r + sr) + int k * sr) ((c + sc) + int k * sc)) = Null) [0..<n])"
    unfolding tgt using Suc.IH[OF Suc.prems] by simp
  have split: "[0..<Suc n] = 0 # map Suc [0..<n]"
    by (simp add: upt_conv_Cons map_Suc_upt del: upt_Suc)
  have shift: "list_all (\<lambda>k. elems b (rowColToIndex (r + int k * sr) (c + int k * sc)) = Null) [0..<Suc n]
     \<longleftrightarrow> elems b (rowColToIndex r c) = Null \<and>
         list_all (\<lambda>k. elems b (rowColToIndex ((r + sr) + int k * sr) ((c + sc) + int k * sc)) = Null) [0..<n]"
    unfolding split by (simp add: list.pred_map comp_def algebra_simps del: upt_Suc)
  show ?case
    apply (subst path_while.simps)
    using ne IH shift by (auto simp del: upt_Suc)
qed

lemma cells_between_conv:
  assumes "n = nat (max \<bar>tr - fr\<bar> \<bar>tc - fc\<bar>)" "sr = sgn (tr - fr)" "sc = sgn (tc - fc)"
  shows "list_all (\<lambda>(r, c). elems b (rowColToIndex r c) = Null) (cells_between fr fc tr tc)
     \<longleftrightarrow> list_all (\<lambda>k. elems b (rowColToIndex ((fr + sr) + int k * sr) ((fc + sc) + int k * sc)) = Null) [0..<n - 1]"
proof -
  have "[1..<n] = map Suc [0..<n - 1]"
    by (cases n) (simp_all add: map_Suc_upt del: upt_Suc)
  then show ?thesis
    unfolding cells_between_def assms(1)[symmetric] assms(2,3)[symmetric]
    by (simp add: list.pred_map comp_def algebra_simps del: upt_Suc)
qed

lemma isLegalRookMove_eq:
  "isLegalRookMove b fr fc tr tc =
     Some ((fr = tr \<or> fc = tc) \<and>
           list_all (\<lambda>(r, c). elems b (rowColToIndex r c) = Null) (cells_between fr fc tr tc))"
proof (cases "fr \<noteq> tr \<and> fc \<noteq> tc")
  case True
  then show ?thesis by (simp add: isLegalRookMove_def)
next
  case False
  define sr where "sr = sgn (tr - fr)"
  define sc where "sc = sgn (tc - fc)"
  define n where "n = nat (max \<bar>tr - fr\<bar> \<bar>tc - fc\<bar>)"
  have steps: "(if fr = tr then 0 else if tr > fr then 1 else -1) = sr"
              "(if fc = tc then 0 else if tc > fc then 1 else -1) = sc"
    by (auto simp: sr_def sc_def)
  have call: "isLegalRookMove b fr fc tr tc = path_while b (fr + sr) (fc + sc) sr sc tr tc"
    using False by (auto simp add: isLegalRookMove_def Let_def sr_def sc_def)
  show ?thesis
  proof (cases "fr = tr \<and> fc = tc")
    case True
    then have "sr = 0" "sc = 0" by (simp_all add: sr_def sc_def)
    with True show ?thesis
      using call by (simp add: path_while_here cells_between_def)
  next
    case ne: False
    have nz: "sr \<noteq> 0 \<or> sc \<noteq> 0" using ne by (auto simp: sr_def sc_def sgn_if)
    have n1: "n \<ge> 1" using ne by (auto simp: n_def)
    have tgt: "tr = (fr + sr) + int (n - 1) * sr" "tc = (fc + sc) + int (n - 1) * sc"
      using False ne n1 by (auto simp: sr_def sc_def n_def sgn_if algebra_simps of_nat_diff)
    have "path_while b (fr + sr) (fc + sc) sr sc tr tc =
       Some (list_all (\<lambda>k. elems b (rowColToIndex ((fr + sr) + int k * sr) ((fc + sc) + int k * sc)) = Null) [0..<n - 1])"
      using path_while_steps[OF nz, of b "fr + sr" "fc + sc" "n - 1"] tgt by simp
    then show ?thesis
      using False cells_between_conv[OF n_def sr_def sc_def, of b] by (simp add: call)
  qed
qed

lemma isLegalBishopMove_eq:
  "isLegalBishopMove b fr fc tr tc =
     Some ((\<bar>tr - fr\<bar> = \<bar>tc - fc\<bar> \<and> tr \<noteq> fr) \<and>
           list_all (\<lambda>(r, c). elems b (rowColToIndex r c) = Null) (cells_between fr fc tr tc))"
proof (cases "\<bar>tr - fr\<bar> \<noteq> \<bar>tc - fc\<bar> \<or> tr - fr = 0")
  case True
  then show ?thesis by (auto simp add: isLegalBishopMove_def Let_def)
next
  case False
  define sr where "sr = sgn (tr - fr)"
  define sc where "sc = sgn (tc - fc)"
  define n where "n = nat (max \<bar>tr - fr\<bar> \<bar>tc - fc\<bar>)"
  have steps: "(if tr - fr > 0 then 1 else -1) = sr"
              "(if tc - fc > 0 then 1 else -1) = sc"
    using False by (auto simp: sr_def sc_def)
  have call: "isLegalBishopMove b fr fc tr tc = path_while b (fr + sr) (fc + sc) sr sc tr tc"
    using False by (auto simp add: isLegalBishopMove_def Let_def sr_def sc_def)
  have nz: "sr \<noteq> 0 \<or> sc \<noteq> 0" using False by (auto simp: sr_def sc_def sgn_if)
  have n1: "n \<ge> 1" using False by (auto simp: n_def)
  have tgt: "tr = (fr + sr) + int (n - 1) * sr" "tc = (fc + sc) + int (n - 1) * sc"
    using False n1 by (auto simp: sr_def sc_def n_def sgn_if algebra_simps of_nat_diff)
  have "path_while b (fr + sr) (fc + sc) sr sc tr tc =
     Some (list_all (\<lambda>k. elems b (rowColToIndex ((fr + sr) + int k * sr) ((fc + sc) + int k * sc)) = Null) [0..<n - 1])"
    using path_while_steps[OF nz, of b "fr + sr" "fc + sc" "n - 1"] tgt by simp
  then show ?thesis
    using False cells_between_conv[OF n_def sr_def sc_def, of b] by (simp add: call)
qed

lemma wf_board_cell:
  assumes "wf_board b" "on_board r c"
  shows "(elems b (rowColToIndex r c) = Null) = (\<not> occupied (elems b (rowColToIndex r c)))"
proof -
  have "0 \<le> rowColToIndex r c \<and> rowColToIndex r c < 16"
    using assms(2) by (simp add: on_board_def rowColToIndex_def BOARD_SIZE_def)
  then have "elems b (rowColToIndex r c) \<noteq> Undefined"
    using assms(1) unfolding wf_board_def by metis
  then show ?thesis by (cases "elems b (rowColToIndex r c)") simp_all
qed

lemma cells_between_on_board:
  assumes "on_board fr fc" "on_board tr tc"
    and "fr = tr \<or> fc = tc \<or> \<bar>tr - fr\<bar> = \<bar>tc - fc\<bar>"
    and "(r, c) \<in> set (cells_between fr fc tr tc)"
  shows "on_board r c"
proof -
  from assms(4) obtain k where k: "1 \<le> k" "int k < max \<bar>tr - fr\<bar> \<bar>tc - fc\<bar>"
    and r: "r = fr + int k * sgn (tr - fr)" and c: "c = fc + int k * sgn (tc - fc)"
    by (auto simp: cells_between_def)
  show ?thesis
    using assms(1,2,3) k unfolding r c on_board_def
    by (auto simp: sgn_if split: if_splits)
qed

lemma between_clear_conv:
  assumes "wf_board b" "on_board fr fc" "on_board tr tc"
    and "fr = tr \<or> fc = tc \<or> \<bar>tr - fr\<bar> = \<bar>tc - fc\<bar>"
  shows "list_all (\<lambda>(r, c). elems b (rowColToIndex r c) = Null) (cells_between fr fc tr tc)
     = list_all (\<lambda>(r, c). \<not> occupied (elems b (rowColToIndex r c))) (cells_between fr fc tr tc)"
proof -
  have "(case x of (r, c) \<Rightarrow> elems b (rowColToIndex r c) = Null)
      = (case x of (r, c) \<Rightarrow> \<not> occupied (elems b (rowColToIndex r c)))"
    if "x \<in> set (cells_between fr fc tr tc)" for x
  proof -
    obtain r c where x: "x = (r, c)" by (cases x)
    have "on_board r c" using cells_between_on_board[OF assms(2,3,4)] that x by simp
    then show ?thesis using wf_board_cell[OF assms(1)] x by simp
  qed
  then show ?thesis unfolding list_all_iff by (rule ball_cong[OF refl])
qed

text \<open>
  Claim C5. On a board of sixteen cells and for source and destination on the board, the
  rook check returns, and accepts exactly when source and destination share a row or a
  column and no cell strictly between them holds a piece; the bishop check returns, and
  accepts exactly when the two lie on a common diagonal (and differ) and no cell strictly
  between them holds a piece. The owner of a blocking piece plays no part.
\<close>

theorem rook_bishop_blocked_by_any_occupant:
  assumes "wf_board b" "on_board fr fc" "on_board tr tc"
  shows "isLegalRookMove b fr fc tr tc =
           Some ((fr = tr \<or> fc = tc) \<and>
                 list_all (\<lambda>(r, c). \<not> occupied (elems b (rowColToIndex r c)))
                   (cells_between fr fc tr tc))
       \<and> isLegalBishopMove b fr fc tr tc =
           Some ((\<bar>tr - fr\<bar> = \<bar>tc - fc\<bar> \<and> tr \<noteq> fr) \<and>
                 list_all (\<lambda>(r, c). \<not> occupied (elems b (rowColToIndex r c)))
                   (cells_between fr fc tr tc))"
proof
  show "isLegalRookMove b fr fc tr tc =
           Some ((fr = tr \<or> fc = tc) \<and>
                 list_all (\<lambda>(r, c). \<not> occupied (elems b (rowColToIndex r c)))
                   (cells_between fr fc tr tc))"
  proof (cases "fr = tr \<or> fc = tc")
    case True
    then have "fr = tr \<or> fc = tc \<or> \<bar>tr - fr\<bar> = \<bar>tc - fc\<bar>" by blast
    from between_clear_conv[OF assms this] show ?thesis
      by (simp add: isLegalRookMove_eq)
  next
    case False
    then show ?thesis by (simp add: isLegalRookMove_eq)
  qed
  show "isLegalBishopMove b fr fc tr tc =
           Some ((\<bar>tr - fr\<bar> = \<bar>tc - fc\<bar> \<and> tr \<noteq> fr) \<and>
                 list_all (\<lambda>(r, c). \<not> occupied (elems b (rowColToIndex r c)))
                   (cells_between fr fc tr tc))"
  proof (cases "\<bar>tr - fr\<bar> = \<bar>tc - fc\<bar>")
    case True
    then have "fr = tr \<or> fc = tc \<or> \<bar>tr - fr\<bar> = \<bar>tc - fc\<bar>" by blast
    from between_clear_conv[OF assms this] show ?thesis
      by (simp add: isLegalBishopMove_eq)
  next
    case False
    then show ?thesis by (simp add: isLegalBishopMove_eq)
  qed
qed

theorem rook_bishop_blocked_witness:
  "wf_board blocked_row_board \<and> on_board 0 0 \<and> on_board 0 3 \<and> on_board 3 0
   \<and> isLegalRookMove blocked_row_board 0 0 0 3 = Some False
   \<and> isLegalBishopMove blocked_row_board 0 0 0 3 = Some False
   \<and> isLegalRookMove blocked_row_board 3 0 0 3 = Some False
   \<and> isLegalBishopMove blocked_row_board 3 0 0 3 = Some True
   \<and> isLegalRookMove blocked_row_board 0 0 3 0 = Some True"
proof -
  have ob: "on_board 0 0" "on_board 0 3" "on_board 3 0" by (simp_all add: on_board_def)
  have cb: "cells_between 0 0 0 3 = [(0, 1), (0, 2)]" "cells_between 3 0 0 3 = [(2, 1), (1, 2)]"
     "cells_between 0 0 3 0 = [(1, 0), (2, 0)]"
    by (simp_all add: cells_between_def upt_rec)
  have el:
    "elems blocked_row_board (rowColToIndex 0 2)
       = Piece \<lparr>player = PLAYER_O, ptype = Knight, dir = None\<rparr>"
    "elems blocked_row_board (rowColToIndex 0 1) = Null"
    "elems blocked_row_board (rowColToIndex 2 1) = Null"
    "elems blocked_row_board (rowColToIndex 1 2) = Null"
    "elems blocked_row_board (rowColToIndex 1 0) = Null"
    "elems blocked_row_board (rowColToIndex 2 0) = Null"
    by (simp_all add: blocked_row_board_def set_cell_def empty_board_def rowColToIndex_def
        BOARD_SIZE_def BOARD_CELLS_def)
  show ?thesis
    using rook_bishop_blocked_by_any_occupant[OF wf_blocked_row_board ob(1) ob(2)]
      rook_bishop_blocked_by_any_occupant[OF wf_blocked_row_board ob(3) ob(2)]
      rook_bishop_blocked_by_any_occupant[OF wf_blocked_row_board ob(1) ob(3)]
    by (simp add: wf_blocked_row_board ob cb el)
qed

section \<open>The outcome detector\<close>

lemma upto_0_3: "[0..3] = [0, 1, 2, (3::int)]"
  by (simp add: upto_rec1)

lemma spec_lines_eq:
  "spec_lines = map (\<lambda>(a, b0, c, d). [a, b0, c, d]) lines"
  by (simp add: spec_lines_def lines_def upto_0_3 rowColToIndex_def BOARD_SIZE_def)

lemma line_winner_Some:
  "line_winner b (a, b0, c, d) = Some p \<longleftrightarrow>
     cell_player_is (elems b a) p \<and> cell_player_is (elems b b0) p
     \<and> cell_player_is (elems b c) p \<and> cell_player_is (elems b d) p"
  by (cases "elems b a") auto

lemma checkWinner_loop_Some:
  "checkWinner_loop b ls = Some p \<Longrightarrow> \<exists>l\<in>set ls. line_winner b l = Some p"
  by (induction ls) (auto split: option.splits)

lemma checkWinner_loop_None:
  "checkWinner_loop b ls = None \<longleftrightarrow> (\<forall>l\<in>set ls. line_winner b l = None)"
  by (induction ls) (auto split: option.splits)

lemma has_line_iff: "has_line b p \<longleftrightarrow> (\<exists>l\<in>set lines. line_winner b l = Some p)"
proof -
  have "list_all (\<lambda>i. cell_player_is (elems b i) p) (case l of (a, b0, c, d) \<Rightarrow> [a, b0, c, d])
      \<longleftrightarrow> line_winner b l = Some p" for l
    by (cases l) (simp add: line_winner_Some del: line_winner.simps)
  then show ?thesis
    by (simp add: has_line_def spec_lines_eq list_ex_iff)
qed

lemma checkWinner_Some_has_line: "checkWinner b = Some p \<Longrightarrow> has_line b p"
  unfolding checkWinner_def has_line_iff by (rule checkWinner_loop_Some)

lemma checkWinner_None_iff: "checkWinner b = None \<longleftrightarrow> (\<forall>p. \<not> has_line b p)"
  unfolding checkWinner_def has_line_iff checkWinner_loop_None
  by (metis not_None_eq)

lemma isBoardFull_wf:
  assumes "wf_board b"
  shows "isBoardFull b \<longleftrightarrow> all_cells_occupied b"
proof -
  have occ: "elems b i \<noteq> Null \<longleftrightarrow> occupied (elems b i)" if "0 \<le> i" "i < 16" for i
  proof -
    have "elems b i \<noteq> Undefined" using assms that unfolding wf_board_def by metis
    then show ?thesis by (cases "elems b i") simp_all
  qed
  have "isBoardFull b \<longleftrightarrow> (\<forall>k<16. elems b (int k) \<noteq> Null)"
    using assms by (auto simp add: isBoardFull_def wf_board_def list_all_iff)
  also have "\<dots> \<longleftrightarrow> (\<forall>i. 0 \<le> i \<and> i < 16 \<longrightarrow> elems b i \<noteq> Null)"
  proof
    assume L: "\<forall>k<16. elems b (int k) \<noteq> Null"
    show "\<forall>i. 0 \<le> i \<and> i < 16 \<longrightarrow> elems b i \<noteq> Null"
    proof (intro allI impI)
      fix i :: int assume "0 \<le> i \<and> i < 16"
      then have "nat i < 16" "int (nat i) = i" by auto
      with L show "elems b i \<noteq> Null" by metis
    qed
  next
    assume "\<forall>i. 0 \<le> i \<and> i < 16 \<longrightarrow> elems b i \<noteq> Null"
    then show "\<forall>k<16. elems b (int k) \<noteq> Null" by simp
  qed
  also have "\<dots> \<longleftrightarrow> all_cells_occupied b"
    using occ by (auto simp: all_cells_occupied_def list_all_iff)
  finally show ?thesis .
qed

text \<open>
  Claim C2. On a board of sixteen cells the detector reports a winner exactly when some
  side owns all four cells of one of the ten lines, the reported winner owns such a line,
  and it reports a draw exactly when all sixteen cells hold a piece and no side owns a
  line.
\<close>

theorem outcome_detector_lines_and_draw:
  assumes "wf_board b"
  shows "((\<exists>p. detect b = Winner p) \<longleftrightarrow> (\<exists>p. has_line b p))
       \<and> (\<forall>p. detect b = Winner p \<longrightarrow> has_line b p)
       \<and> (detect b = Draw \<longleftrightarrow> all_cells_occupied b \<and> \<not> (\<exists>p. has_line b p))"
proof (cases "checkWinner b")
  case None
  then show ?thesis
    using checkWinner_None_iff[of b] isBoardFull_wf[OF assms] by (simp add: detect_def)
next
  case (Some w)
  then have "has_line b w" by (rule checkWinner_Some_has_line)
  with Some show ?thesis by (auto simp: detect_def)
qed

lemma detect_x_row: "detect x_row_board = Winner PLAYER_X"
  by (simp add: detect_def checkWinner_def lines_def x_row_board_def board_of_def mk_def)

lemma has_line_full: "\<not> has_line full_board p"
  by (cases p) (simp_all add: has_line_def spec_lines_eq lines_def full_board_def board_of_def mk_def)

lemma all_occ_full: "all_cells_occupied full_board"
  by (simp add: all_cells_occupied_def upto_0_15 full_board_def board_of_def mk_def)

theorem outcome_detector_witness:
  "wf_board x_row_board \<and> detect x_row_board = Winner PLAYER_X \<and> has_line x_row_board PLAYER_X
   \<and> wf_board full_board \<and> all_cells_occupied full_board \<and> detect full_board = Draw"
  using outcome_detector_lines_and_draw[OF wf_examples(1)]
    outcome_detector_lines_and_draw[OF wf_examples(3)]
  by (simp add: wf_examples detect_x_row has_line_full all_occ_full)

section \<open>Terminal scores of the search\<close>

declare minimax.simps [simp del]

text \<open>
  Claim C7. With \<open>BASE = 100\<close>: \<^verbatim>\<open>minimax\<close> returns \<open>100 - depth\<close> when the detector finds
  a line of O (the maximizing side), \<open>- 100 + depth\<close> when it finds a line of X, \<open>0\<close> on
  a full board without a line, and \<open>0\<close> when no line is found, the board is not full and
  \<open>depth\<close> has reached the limit of 2 plies. The detector finds a line of a side
  whenever that side owns one of the ten lines and the other side owns none, and finds
  none when neither side owns one.
\<close>

theorem minimax_terminal_scores:
  "(checkWinner b = Some PLAYER_O \<longrightarrow> minimax b p depth isMaximizing alpha beta = Some (100 - depth))
   \<and> (checkWinner b = Some PLAYER_X \<longrightarrow> minimax b p depth isMaximizing alpha beta = Some (- 100 + depth))
   \<and> (checkWinner b = None \<and> isBoardFull b \<longrightarrow> minimax b p depth isMaximizing alpha beta = Some 0)
   \<and> (checkWinner b = None \<and> \<not> isBoardFull b \<and> depth \<ge> 2
        \<longrightarrow> minimax b p depth isMaximizing alpha beta = Some 0)
   \<and> (has_line b PLAYER_O \<and> \<not> has_line b PLAYER_X \<longrightarrow> checkWinner b = Some PLAYER_O)
   \<and> (has_line b PLAYER_X \<and> \<not> has_line b PLAYER_O \<longrightarrow> checkWinner b = Some PLAYER_X)
   \<and> (\<not> has_line b PLAYER_X \<and> \<not> has_line b PLAYER_O \<longrightarrow> checkWinner b = None)"
proof -
  have 1: "has_line b q \<and> \<not> has_line b (other_player q) \<longrightarrow> checkWinner b = Some q" for q
  proof
    assume h: "has_line b q \<and> \<not> has_line b (other_player q)"
    then obtain w where w: "checkWinner b = Some w"
      using checkWinner_None_iff[of b] by (cases "checkWinner b") auto
    then have "has_line b w" by (rule checkWinner_Some_has_line)
    with h have "w = q" by (cases w; cases q) (auto simp: other_player_def)
    with w show "checkWinner b = Some q" by simp
  qed
  have 2: "\<not> has_line b PLAYER_X \<and> \<not> has_line b PLAYER_O \<longrightarrow> checkWinner b = None"
    using checkWinner_None_iff[of b] by (metis player.exhaust)
  show ?thesis
    using 1[of PLAYER_O] 1[of PLAYER_X] 2
    by (subst (1 2 3 4) minimax.simps)
       (simp add: other_player_def MINIMAX_WIN_def MINIMAX_LOSS_def MINIMAX_DRAW_def MAX_DEPTH_def)
qed

theorem minimax_terminal_witness:
  "minimax o_column_board (\<lambda>p. []) 1 True (- 100) 100 = Some 99
   \<and> minimax x_row_board (\<lambda>p. []) 0 False (- 100) 100 = Some (- 100)
   \<and> minimax full_board (\<lambda>p. []) 1 True (- 100) 100 = Some 0
   \<and> minimax empty_board (\<lambda>p. PIECE_TYPES) 2 True (- 100) 100 = Some 0"
proof -
  have a: "checkWinner o_column_board = Some PLAYER_O"
    by (simp add: checkWinner_def lines_def o_column_board_def board_of_def mk_def)
  have b: "checkWinner x_row_board = Some PLAYER_X"
    by (simp add: checkWinner_def lines_def x_row_board_def board_of_def mk_def)
  have c: "checkWinner full_board = None" "isBoardFull full_board"
    by (simp_all add: checkWinner_def lines_def isBoardFull_def upt_0_16 full_board_def board_of_def mk_def)
  have d: "checkWinner empty_board = None" "\<not> isBoardFull empty_board"
    by (simp_all add: checkWinner_def lines_def isBoardFull_def upt_0_16 empty_board_def BOARD_CELLS_def BOARD_SIZE_def)
  show ?thesis
    using minimax_terminal_scores[of o_column_board "\<lambda>p. []" 1 True "- 100" 100]
      minimax_terminal_scores[of x_row_board "\<lambda>p. []" 0 False "- 100" 100]
      minimax_terminal_scores[of full_board "\<lambda>p. []" 1 True "- 100" 100]
      minimax_terminal_scores[of empty_board "\<lambda>p. PIECE_TYPES" 2 True "- 100" 100]
    by (simp add: a b c d)
qed

section \<open>Pawn moves\<close>





lemma place_pawn_0:
  "board (placePiece initGame PLAYER_X Pawn 0) = set_cell empty_board 0 (Piece x_pawn)"
  by (simp add: placePiece_def initGame_def empty_board_def BOARD_CELLS_def BOARD_SIZE_def
      PIECE_TYPES_def afterAction_def Let_def x_pawn_def split: option.splits)




section \<open>Rejected actions\<close>

text \<open>
  Every branch of the \<^verbatim>\<open>makeMove\<close> handler that emits an error returns before anything
  is written, and so does every \<^verbatim>\<open>return false\<close> of \<^verbatim>\<open>tryMovePiece\<close>.
\<close>

lemma makeMove_error_unchanged:
  assumes "makeMove gs pid d = Some (gs', Error e)"
  shows "gs' = gs"
proof -
  have fin: "finish_move g \<noteq> (g', Error e)" for g g'
    by (simp add: finish_move_def Let_def)
  show ?thesis
  proof (cases d)
    case (DataPlace index ty)
    then show ?thesis
      using assms fin
      by (auto simp: makeMove_def Let_def split: if_splits option.splits)
  next
    case (DataMove f t)
    then show ?thesis
      using assms fin
      by (auto simp: makeMove_def Let_def split: if_splits option.splits cell.splits bool.splits)
  next
    case DataOther
    then show ?thesis using assms fin by (auto simp: makeMove_def split: if_splits)
  qed
qed

lemma tryMovePiece_rejected_unchanged:
  assumes "tryMovePiece g f t = Some (False, g')"
  shows "g' = g"
  using assms
  by (auto simp: tryMovePiece_def Let_def split: if_splits option.splits cell.splits bool.splits)

text \<open>
  Claim C6 fails for an action that is neither \<^verbatim>\<open>"place"\<close> nor \<^verbatim>\<open>"move"\<close>: the handler
  has no branch for it, falls through to the winner check and the turn change, and
  broadcasts the state. Sent by X in the initial state, such an action emits no error and
  hands the turn to O.
\<close>

theorem unrecognized_action_passes_the_turn:
  "makeMove createInitialGameState PLAYER_X DataOther =
     Some (createInitialGameState\<lparr>currentPlayer := PLAYER_O\<rparr>,
           GameStateUpdate (createInitialGameState\<lparr>currentPlayer := PLAYER_O\<rparr>))"
  by (simp add: makeMove_def finish_move_def createInitialGameState_def checkWinner_def lines_def
      isBoardFull_def empty_board_def BOARD_CELLS_def BOARD_SIZE_def other_player_def upt_0_16 Let_def)

section \<open>Disconnects\<close>



section \<open>Material conservation\<close>

lemma conserved_place:
  assumes c: "conserved b p" and i: "cell_on_board i" and e: "elems b i = Null"
    and idx: "indexOf (p pl) ty = Some idx" and pc: "player pc = pl"
  shows "conserved (set_cell b i (Piece pc)) (p(pl := splice1 (p pl) idx))"
proof -
  have wf: "wf_board b" using c by (simp add: conserved_def)
  have i': "0 \<le> i" "i < 16" using i by (simp_all add: cell_on_board_def)
  have wf': "wf_board (set_cell b i (Piece pc))"
    using wf i' by (intro wf_set_cell) simp_all
  have len: "Suc (length (splice1 (p pl) idx)) = length (p pl)"
    using idx by (intro length_splice1 indexOf_Some_less)
  have "material (set_cell b i (Piece pc)) (p(pl := splice1 (p pl) idx)) q = 4" for q
  proof -
    have m: "countPiecesOnBoard b q + length (p q) = 4"
      using c by (simp add: conserved_def material_def)
    show ?thesis
      using count_set_cell_wf[OF wf i', of "Piece pc" q] m len e pc
      by (cases "q = pl") (auto simp: material_def)
  qed
  with wf' show ?thesis by (simp add: conserved_def)
qed

lemma count_after_move:
  assumes wf: "wf_board b" and f: "cell_on_board f" and t: "cell_on_board t" and ft: "f \<noteq> t"
    and src: "elems b f = Piece fromCell"
    and mv: "move_cells b f t fromCell = Some b'"
  shows "wf_board b'"
    and "countPiecesOnBoard b' pl + (if cell_player_is (elems b t) pl then 1 else 0)
       = countPiecesOnBoard b pl"
proof -
  have f': "0 \<le> f" "f < 16" and t': "0 \<le> t" "t < 16"
    using f t by (simp_all add: cell_on_board_def)
  let ?b1 = "set_cell b t (Piece fromCell)"
  let ?b2 = "set_cell ?b1 f Null"
  have wf1: "wf_board ?b1" by (rule wf_set_cell[OF wf t']) simp
  have wf2: "wf_board ?b2" by (rule wf_set_cell[OF wf1 f']) simp
  have c1: "countPiecesOnBoard ?b1 pl + (if cell_player_is (elems b t) pl then 1 else 0)
       = countPiecesOnBoard b pl + (if player fromCell = pl then 1 else 0)"
    using count_set_cell_wf[OF wf t', of "Piece fromCell" pl] by simp
  have c2: "countPiecesOnBoard ?b2 pl + (if player fromCell = pl then 1 else 0)
       = countPiecesOnBoard ?b1 pl"
    using count_set_cell_wf[OF wf1 f', of Null pl] ft src by (simp add: elems_set_cell)
  have c3: "countPiecesOnBoard (set_cell ?b2 t (Piece q)) pl = countPiecesOnBoard ?b2 pl"
    if "player q = player fromCell" for q
    using count_set_cell_wf[OF wf2 t', of "Piece q" pl] ft that by (simp add: elems_set_cell)
  from move_cells_Some[OF mv] obtain q where q: "player q = player fromCell"
    and b': "b' = ?b2 \<or> b' = set_cell ?b2 t (Piece q)"
    by blast
  have "wf_board (set_cell ?b2 t (Piece q))" by (rule wf_set_cell[OF wf2 t']) simp
  with b' wf2 show "wf_board b'" by auto
  from b' have "countPiecesOnBoard b' pl = countPiecesOnBoard ?b2 pl"
    using c3[OF q] by auto
  then show "countPiecesOnBoard b' pl + (if cell_player_is (elems b t) pl then 1 else 0)
       = countPiecesOnBoard b pl"
    using c1 c2 by simp
qed

lemma length_capture:
  "length (capture p toCell mover pl)
     = length (p pl) + (if cell_player_differs toCell mover \<and> cell_player_is toCell pl then 1 else 0)"
  by (cases toCell) (auto simp: capture_def)

lemma conserved_move:
  assumes c: "conserved b p" and f: "cell_on_board f" and t: "cell_on_board t"
    and src: "elems b f = Piece fromCell" and own: "player fromCell = mover"
    and notown: "\<not> cell_player_is (elems b t) mover"
    and mv: "move_cells b f t fromCell = Some b'"
  shows "conserved b' (capture p (elems b t) mover)"
proof -
  have wf: "wf_board b" using c by (simp add: conserved_def)
  have ft: "f \<noteq> t" using src own notown by auto
  note cm = count_after_move[OF wf f t ft src mv]
  have "material b' (capture p (elems b t) mover) pl = 4" for pl
  proof -
    have d: "cell_player_is (elems b t) pl \<Longrightarrow> cell_player_differs (elems b t) mover"
      using notown by (cases "elems b t") auto
    have m: "countPiecesOnBoard b pl + length (p pl) = 4"
      using c by (simp add: conserved_def material_def)
    show ?thesis
    proof (cases "cell_player_is (elems b t) pl")
      case True
      with d cm(2)[of pl] m show ?thesis by (simp add: material_def length_capture)
    next
      case False
      with cm(2)[of pl] m show ?thesis by (simp add: material_def length_capture)
    qed
  qed
  with cm(1) show ?thesis by (simp add: conserved_def)
qed

lemma finish_move_board: "board (fst (finish_move gs)) = board gs" "pools (fst (finish_move gs)) = pools gs"
  by (simp_all add: finish_move_def Let_def split: option.splits)

lemma afterAction_board: "board (afterAction g) = board g" "pools (afterAction g) = pools g"
  by (simp_all add: afterAction_def split: option.splits)

text \<open>The ways in which the handler, \<^verbatim>\<open>placePiece\<close>, \<^verbatim>\<open>tryMovePiece\<close> and \<^verbatim>\<open>aiTakeTurn\<close> can return.\<close>

lemma makeMove_cases:
  assumes "makeMove gs pid d = Some (gs', r)"
  obtains (rejected) e where "gs' = gs" "r = Error e"
  | (placed) index ty idx pc where "d = DataPlace index ty" "elems (board gs) index = Null"
      "indexOf (pools gs pid) ty = Some idx" "player pc = pid" "ptype pc = ty"
      "ty = Pawn \<longrightarrow> dir pc = Some 1 \<or> dir pc = Some (- 1)"
      "(gs', r) = finish_move (gs\<lparr>board := set_cell (board gs) index (Piece pc),
                                 pools := (pools gs)(pid := splice1 (pools gs pid) idx)\<rparr>)"
  | (moved) f t fromCell b' where "d = DataMove f t" "bothPlayersHaveThree (board gs)"
      "elems (board gs) f = Piece fromCell" "player fromCell = pid"
      "\<not> cell_player_is (elems (board gs) t) pid"
      "isLegalMove_server (board gs) f t fromCell = Some True"
      "move_cells (board gs) f t fromCell = Some b'"
      "(gs', r) = finish_move (gs\<lparr>board := b', pools := capture (pools gs) (elems (board gs) t) pid\<rparr>)"
  | (other) "d = DataOther" "(gs', r) = finish_move gs"
proof (cases d)
  case (DataPlace index ty)
  show ?thesis
  proof (cases "gameOver gs \<or> currentPlayer gs \<noteq> pid \<or> elems (board gs) index \<noteq> Null
      \<or> indexOf (pools gs pid) ty = None")
    case True
    with assms DataPlace obtain e where "gs' = gs" "r = Error e"
      by (auto simp: makeMove_def split: if_splits)
    then show ?thesis by (rule rejected)
  next
    case False
    then obtain idx where idx: "indexOf (pools gs pid) ty = Some idx" by auto
    define pc where "pc = \<lparr>player = pid, ptype = ty,
       dir = (if ty = Pawn then
                Some (if (index \<in> set [12, 13, 14, 15] \<and> pid = PLAYER_X)
                         \<or> (index \<in> set [0, 1, 2, 3] \<and> pid = PLAYER_O)
                      then -1 * (if pid = PLAYER_X then -1 else 1)
                      else (if pid = PLAYER_X then -1 else 1))
              else None)\<rparr>"
    have 1: "player pc = pid" "ptype pc = ty" by (simp_all add: pc_def)
    have 2: "ty = Pawn \<longrightarrow> dir pc = Some 1 \<or> dir pc = Some (- 1)" by (simp add: pc_def)
    have 3: "(gs', r) = finish_move (gs\<lparr>board := set_cell (board gs) index (Piece pc),
                                 pools := (pools gs)(pid := splice1 (pools gs pid) idx)\<rparr>)"
      using assms DataPlace False idx unfolding pc_def by (simp add: makeMove_def Let_def)
    from False have 0: "elems (board gs) index = Null" by simp
    show ?thesis by (rule placed[OF DataPlace 0 idx 1 2 3])
  qed
next
  case (DataMove f t)
  show ?thesis
  proof (cases "gameOver gs \<or> currentPlayer gs \<noteq> pid \<or> \<not> bothPlayersHaveThree (board gs)")
    case True
    with assms DataMove obtain e where "gs' = gs" "r = Error e"
      by (auto simp: makeMove_def split: if_splits)
    then show ?thesis by (rule rejected)
  next
    case ok: False
    show ?thesis
    proof (cases "elems (board gs) f")
      case (Piece fromCell)
      show ?thesis
      proof (cases "player fromCell \<noteq> pid \<or> cell_player_is (elems (board gs) t) pid
          \<or> isLegalMove_server (board gs) f t fromCell = Some False")
        case True
        with assms DataMove ok Piece obtain e where "gs' = gs" "r = Error e"
          by (auto simp: makeMove_def Let_def split: if_splits)
        then show ?thesis by (rule rejected)
      next
        case False
        with assms DataMove ok Piece
        have leg: "isLegalMove_server (board gs) f t fromCell = Some True"
          by (cases "isLegalMove_server (board gs) f t fromCell") (auto simp: makeMove_def Let_def)
        with assms DataMove ok Piece False
        obtain b' where b': "move_cells (board gs) f t fromCell = Some b'"
          by (cases "move_cells (board gs) f t fromCell") (auto simp: makeMove_def Let_def)
        show ?thesis
          using assms DataMove ok Piece False leg b'
          by (intro moved[OF DataMove _ Piece _ _ leg b']) (auto simp: makeMove_def Let_def)
      qed
    next
      case Null
      with assms DataMove ok have "gs' = gs" "r = Error InvalidMove"
        by (auto simp: makeMove_def)
      then show ?thesis by (rule rejected)
    next
      case Undefined
      with assms DataMove ok have "gs' = gs" "r = Error InvalidMove"
        by (auto simp: makeMove_def)
      then show ?thesis by (rule rejected)
    qed
  qed
next
  case DataOther
  show ?thesis
  proof (cases "gameOver gs \<or> currentPlayer gs \<noteq> pid")
    case True
    with assms DataOther obtain e where "gs' = gs" "r = Error e"
      by (auto simp: makeMove_def split: if_splits)
    then show ?thesis by (rule rejected)
  next
    case False
    with assms DataOther have "(gs', r) = finish_move gs" by (auto simp: makeMove_def)
    with DataOther show ?thesis by (rule other)
  qed
qed

lemma placePiece_cases:
  obtains (unchanged) "placePiece g pl ty index = g"
  | (placed) idx pc where "elems (board g) index = Null"
      "indexOf (pools g pl) ty = Some idx" "player pc = pl" "ptype pc = ty"
      "ty = Pawn \<longrightarrow> dir pc = Some 1 \<or> dir pc = Some (- 1)"
      "placePiece g pl ty index
         = afterAction (g\<lparr>board := set_cell (board g) index (Piece pc),
                          pools := (pools g)(pl := splice1 (pools g pl) idx)\<rparr>)"
proof (cases "gameOver g \<or> pl \<noteq> currentPlayer g \<or> elems (board g) index \<noteq> Null
      \<or> indexOf (pools g pl) ty = None")
  case True
  then have "placePiece g pl ty index = g" by (auto simp: placePiece_def)
  then show ?thesis by (rule unchanged)
next
  case False
  then obtain idx where idx: "indexOf (pools g pl) ty = Some idx" by auto
  define pc where "pc = \<lparr>player = pl, ptype = ty,
                      dir = (if ty = Pawn then Some (if pl = PLAYER_X then -1 else 1) else None)\<rparr>"
  have 1: "player pc = pl" "ptype pc = ty" by (simp_all add: pc_def)
  have 2: "ty = Pawn \<longrightarrow> dir pc = Some 1 \<or> dir pc = Some (- 1)" by (simp add: pc_def)
  have 3: "placePiece g pl ty index
         = afterAction (g\<lparr>board := set_cell (board g) index (Piece pc),
                          pools := (pools g)(pl := splice1 (pools g pl) idx)\<rparr>)"
    using False idx unfolding pc_def by (simp add: placePiece_def Let_def)
  from False have 0: "elems (board g) index = Null" by simp
  show ?thesis by (rule placed[OF 0 idx 1 2 3])
qed

lemma tryMovePiece_cases:
  assumes "tryMovePiece g f t = Some (ok, g')"
  obtains (rejected) "ok = False" "g' = g"
  | (moved) fromCell b' where "ok = True" "bothPlayersHaveThree (board g)"
      "elems (board g) f = Piece fromCell" "player fromCell = currentPlayer g" "f \<noteq> t"
      "\<not> cell_player_is (elems (board g) t) (currentPlayer g)"
      "isLegalMove (board g) f t fromCell = Some True"
      "move_cells (board g) f t fromCell = Some b'"
      "g' = afterAction (g\<lparr>board := b',
                            pools := capture (pools g) (elems (board g) t) (currentPlayer g)\<rparr>)"
proof (cases "gameOver g \<or> \<not> bothPlayersHaveThree (board g)")
  case True
  with assms have "ok = False" "g' = g" by (auto simp: tryMovePiece_def split: if_splits)
  then show ?thesis by (rule rejected)
next
  case ok: False
  show ?thesis
  proof (cases "elems (board g) f")
    case (Piece fromCell)
    show ?thesis
    proof (cases "player fromCell \<noteq> currentPlayer g \<or> f = t
          \<or> cell_player_is (elems (board g) t) (currentPlayer g)
          \<or> isLegalMove (board g) f t fromCell = Some False")
      case True
      with assms ok Piece have "ok = False" "g' = g"
        by (auto simp: tryMovePiece_def Let_def split: if_splits)
      then show ?thesis by (rule rejected)
    next
      case False
      with assms ok Piece
      have leg: "isLegalMove (board g) f t fromCell = Some True"
        by (cases "isLegalMove (board g) f t fromCell") (auto simp: tryMovePiece_def Let_def)
      with assms ok Piece False
      obtain b' where b': "move_cells (board g) f t fromCell = Some b'"
        by (cases "move_cells (board g) f t fromCell") (auto simp: tryMovePiece_def Let_def)
      have res: "ok = True" "g' = afterAction (g\<lparr>board := b',
                            pools := capture (pools g) (elems (board g) t) (currentPlayer g)\<rparr>)"
        using assms ok Piece False leg b' by (auto simp: tryMovePiece_def Let_def)
      from ok False show ?thesis
        by (intro moved[OF res(1) _ Piece _ _ _ leg b' res(2)]) auto
    qed
  next
    case Null
    with assms ok have "ok = False" "g' = g" by (auto simp: tryMovePiece_def)
    then show ?thesis by (rule rejected)
  next
    case Undefined
    with assms ok have "ok = False" "g' = g" by (auto simp: tryMovePiece_def)
    then show ?thesis by (rule rejected)
  qed
qed

subsection \<open>The enumeration of the search\<close>

lemma those_map_Some: "those (map Some ys) = Some ys"
  by (induction ys) simp_all

lemma those_Some_D: "those xs = Some ys \<Longrightarrow> xs = map Some ys"
proof (induction xs arbitrary: ys)
  case Nil
  then show ?case by simp
next
  case (Cons x xs)
  then show ?case by (cases x) (auto split: option.splits)
qed

lemma those_Some_iff: "those xs = Some ys \<longleftrightarrow> xs = map Some ys"
  using those_map_Some those_Some_D by metis


lemma those_concat_mem:
  assumes "those (map f xs) = Some yss" "a \<in> set (concat yss)"
  shows "\<exists>x ys. x \<in> set xs \<and> f x = Some ys \<and> a \<in> set ys"
proof -
  from assms(1) have eq: "map f xs = map Some yss" by (simp add: those_Some_iff)
  from assms(2) obtain ys where ys: "ys \<in> set yss" "a \<in> set ys" by auto
  then have "Some ys \<in> set (map f xs)" using eq by simp
  then obtain x where "x \<in> set xs" "f x = Some ys" by auto
  with ys show ?thesis by blast
qed


lemma isLegalMove_server_total: "isLegalMove_server b i j pc \<noteq> None"
  by (simp add: isLegalMove_server_def isLegalRookMove_eq isLegalBishopMove_eq Let_def
      split: prod.splits piece_type.splits)




lemma placements_enumerated:
  "a \<in> set (getAllLegalPlacementsFor b p pl) \<Longrightarrow> enumerated b pl a"
  by (auto simp: getAllLegalPlacementsFor_def Let_def cell_on_board_def split: if_splits)

lemma legal_targets_enumerated:
  assumes "legal_targets b pl i cell = Some ms" "a \<in> set ms" "cell_on_board i"
    "cell_player_is (elems b i) pl"
  shows "enumerated b pl a"
proof -
  from assms(1) obtain yss where th: "those (map (\<lambda>j. if i = j then Some []
                         else if cell_player_is (elems b j) pl then Some []
                         else map_option (\<lambda>ok. if ok then [MoveAction i j] else [])
                                (isLegalMove b i j cell)) [0..15]) = Some yss"
    and ms: "ms = concat yss"
    by (auto simp: legal_targets_def)
  from those_concat_mem[OF th] assms(2) ms obtain j ys where j: "j \<in> set [0..15]"
    and f: "(if i = j then Some []
             else if cell_player_is (elems b j) pl then Some []
             else map_option (\<lambda>ok. if ok then [MoveAction i j] else [])
                    (isLegalMove b i j cell)) = Some ys"
    and a: "a \<in> set ys"
    by blast
  from f a have "a = MoveAction i j" "i \<noteq> j"
    by (auto split: if_splits)
  with j assms(3,4) show ?thesis by (simp add: cell_on_board_def)
qed

lemma moves_enumerated:
  assumes "getAllLegalMovesFor b p pl = Some ms" "a \<in> set ms"
  shows "enumerated b pl a"
proof -
  from assms(1) obtain yss where th: "those (map (\<lambda>i. case elems b i of
                           Piece cell \<Rightarrow>
                             if player cell \<noteq> pl then Some [] else legal_targets b pl i cell
                         | _ \<Rightarrow> Some []) [0..15]) = Some yss"
    and ms: "ms = concat yss"
    by (auto simp: getAllLegalMovesFor_def)
  from those_concat_mem[OF th] assms(2) ms obtain i ys where i: "i \<in> set [0..15]"
    and f: "(case elems b i of
               Piece cell \<Rightarrow> if player cell \<noteq> pl then Some [] else legal_targets b pl i cell
             | _ \<Rightarrow> Some []) = Some ys"
    and a: "a \<in> set ys"
    by blast
  from f a obtain cell where c: "elems b i = Piece cell" "player cell = pl"
    "legal_targets b pl i cell = Some ys"
    by (auto split: cell.splits if_splits)
  from i have "cell_on_board i" by (simp add: cell_on_board_def)
  with legal_targets_enumerated[OF c(3) a] c(1,2) show ?thesis by simp
qed

lemma actions_enumerated:
  assumes "getAllActions b p pl = Some as" "a \<in> set as"
  shows "enumerated b pl a"
  using assms placements_enumerated[of a b p pl] moves_enumerated[of b p pl _ a]
  by (auto simp: getAllActions_def Let_def split: if_splits)

lemma best_loop_mem:
  "best_loop b p as bs ba = Some (Some a) \<Longrightarrow> a \<in> set as \<or> ba = Some a"
proof (induction as arbitrary: bs ba)
  case Nil
  then show ?case by simp
next
  case (Cons x as)
  from Cons.prems obtain b2 p2 score where
    "(if score > bs then best_loop b p as score (Some x) else best_loop b p as bs ba) = Some (Some a)"
    by (auto split: option.splits prod.splits)
  then show ?case using Cons.IH by (auto split: if_splits)
qed

lemma getBestAiAction_mem:
  assumes "getBestAiAction b p = Some (Some a)"
  shows "\<exists>as. getAllActions (cloneBoard b) (clonePools p) PLAYER_O = Some as \<and> a \<in> set as"
  using assms best_loop_mem[of b p _ MINIMAX_LOSS None a]
  by (auto simp: getBestAiAction_def split: option.splits if_splits)

lemma aiTakeTurn_cases:
  assumes "aiTakeTurn g = Some g'"
  obtains (unchanged) "g' = g"
  | (pass) "g' = g\<lparr>currentPlayer := PLAYER_X\<rparr>"
  | (place) index ty where "cell_on_board index" "g' = placePiece g PLAYER_O ty index"
  | (move) f t ok where "cell_on_board f" "cell_on_board t" "tryMovePiece g f t = Some (ok, g')"
proof (cases "gameOver g \<or> currentPlayer g \<noteq> PLAYER_O")
  case True
  with assms have "g' = g" by (auto simp: aiTakeTurn_def split: if_splits)
  then show ?thesis by (rule unchanged)
next
  case False
  with assms have eq: "(case getBestAiAction (board g) (pools g) of
          None \<Rightarrow> None
        | Some None \<Rightarrow> Some (g\<lparr>currentPlayer := PLAYER_X\<rparr>)
        | Some (Some (PlaceAction index ty)) \<Rightarrow> Some (placePiece g PLAYER_O ty index)
        | Some (Some (MoveAction from to)) \<Rightarrow> map_option snd (tryMovePiece g from to)) = Some g'"
    by (simp add: aiTakeTurn_def)
  then obtain r where r: "getBestAiAction (board g) (pools g) = Some r"
    by (cases "getBestAiAction (board g) (pools g)") simp_all
  show ?thesis
  proof (cases r)
    case None
    with eq r have "g' = g\<lparr>currentPlayer := PLAYER_X\<rparr>" by simp
    then show ?thesis by (rule pass)
  next
    case (Some a)
    with r have ra: "getBestAiAction (board g) (pools g) = Some (Some a)" by simp
    from getBestAiAction_mem[OF this] obtain as where
      "getAllActions (cloneBoard (board g)) (clonePools (pools g)) PLAYER_O = Some as" "a \<in> set as"
      by blast
    then have en: "enumerated (cloneBoard (board g)) PLAYER_O a" by (rule actions_enumerated)
    show ?thesis
    proof (cases a)
      case (PlaceAction index ty)
      with eq ra have 1: "g' = placePiece g PLAYER_O ty index" by simp
      from en PlaceAction have 2: "cell_on_board index" by simp
      show ?thesis by (rule place[OF 2 1])
    next
      case (MoveAction f t)
      with eq ra have "map_option snd (tryMovePiece g f t) = Some g'" by simp
      then obtain z where z: "tryMovePiece g f t = Some z" "snd z = g'"
        unfolding map_option_eq_Some by blast
      have 1: "tryMovePiece g f t = Some (fst z, g')"
        unfolding z(1) z(2)[symmetric] by simp
      from en MoveAction have 2: "cell_on_board f" "cell_on_board t" by simp_all
      show ?thesis by (rule move[OF 2 1])
    qed
  qed
qed

subsection \<open>Runs of the server\<close>

lemma play_reachable:
  "server_reachable gs \<Longrightarrow> play acts gs = Some gs' \<Longrightarrow> server_reachable gs'"
proof (induction acts arbitrary: gs)
  case Nil
  then show ?case by simp
next
  case (Cons a acts)
  obtain pid d where a: "a = (pid, d)" by (cases a)
  from Cons.prems(2) a obtain gs1 r where m: "makeMove gs pid d = Some (gs1, r)"
    and rest: "play acts gs1 = Some gs'"
    by (auto split: option.splits)
  from server_reachable.step[OF Cons.prems(1) m] rest show ?case by (rule Cons.IH)
qed

lemma play_on_board_reachable:
  "server_reachable_on_board gs \<Longrightarrow> list_all (\<lambda>(pid, d). data_on_board d) acts
     \<Longrightarrow> play acts gs = Some gs' \<Longrightarrow> server_reachable_on_board gs'"
proof (induction acts arbitrary: gs)
  case Nil
  then show ?case by simp
next
  case (Cons a acts)
  obtain pid d where a: "a = (pid, d)" by (cases a)
  from Cons.prems(3) a obtain gs1 r where m: "makeMove gs pid d = Some (gs1, r)"
    and rest: "play acts gs1 = Some gs'"
    by (auto split: option.splits)
  from Cons.prems(2) a have d: "data_on_board d" and tl: "list_all (\<lambda>(pid, d). data_on_board d) acts"
    by simp_all
  from server_reachable_on_board.step[OF Cons.prems(1) d m] tl rest show ?case by (rule Cons.IH)
qed

lemmas eval_defs = makeMove_def createInitialGameState_def empty_board_def
    BOARD_CELLS_def BOARD_SIZE_def PIECE_TYPES_def splice1_def finish_move_def Let_def
    checkWinner_def lines_def isBoardFull_def upt_0_16 set_cell_def is_array_index_def
    other_player_def countPiecesOnBoard_def bothPlayersHaveThree_def
    isLegalMove_server_def indexToRowCol_def js_rem_def isLegalKnightMove_def move_cells_def capture_def
    isLegalRookMove_def isLegalBishopMove_def isLegalPawnMove_server_def rowColToIndex_def



subsection \<open>Conservation\<close>


lemma conserved_initial: "conserved empty_board (\<lambda>p. PIECE_TYPES)"
proof -
  have "countPiecesOnBoard empty_board pl = 0" for pl
    by (simp add: countPiecesOnBoard_def empty_board_def BOARD_CELLS_def BOARD_SIZE_def)
  then show ?thesis
    by (simp add: conserved_def material_def wf_empty_board PIECE_TYPES_def)
qed

lemma makeMove_conserved:
  assumes c: "conserved (board gs) (pools gs)" and d: "data_on_board d"
    and m: "makeMove gs pid d = Some (gs', r)"
  shows "conserved (board gs') (pools gs')"
  using m
proof (cases rule: makeMove_cases)
  case (rejected e)
  with c show ?thesis by simp
next
  case (placed index ty idx pc)
  from placed(1) d have i: "cell_on_board index" by simp
  from placed(7) have "gs' = fst (finish_move (gs\<lparr>board := set_cell (board gs) index (Piece pc),
                                 pools := (pools gs)(pid := splice1 (pools gs pid) idx)\<rparr>))"
    by (metis fst_conv)
  then show ?thesis
    using conserved_place[OF c i placed(2) placed(3) placed(4)]
    by (simp add: finish_move_board)
next
  case (moved f t fromCell b')
  from moved(1) d have ft: "cell_on_board f" "cell_on_board t" by simp_all
  from moved(8) have "gs' = fst (finish_move (gs\<lparr>board := b', pools := capture (pools gs) (elems (board gs) t) pid\<rparr>))"
    by (metis fst_conv)
  then show ?thesis
    using conserved_move[OF c ft moved(3) moved(4) moved(5) moved(7)]
    by (simp add: finish_move_board)
next
  case other
  then have "gs' = fst (finish_move gs)" by (metis fst_conv)
  with c show ?thesis by (simp add: finish_move_board)
qed

lemma server_reachable_on_board_conserved:
  "server_reachable_on_board gs \<Longrightarrow> conserved (board gs) (pools gs)"
proof (induction rule: server_reachable_on_board.induct)
  case init
  then show ?case by (simp add: createInitialGameState_def conserved_initial)
next
  case (step gs d pid gs' r)
  show ?case by (rule makeMove_conserved[OF step.IH step.hyps(2) step.hyps(3)])
qed







section \<open>Pawn directions\<close>

lemma pawns_face_empty: "pawns_face_one_way empty_board"
  by (simp add: pawns_face_one_way_def empty_board_def)

lemma pawns_face_set_cell:
  assumes "pawns_face_one_way b"
    and "\<And>pc. c = Piece pc \<Longrightarrow> ptype pc = Pawn \<Longrightarrow> dir pc = Some 1 \<or> dir pc = Some (- 1)"
  shows "pawns_face_one_way (set_cell b i c)"
  using assms unfolding pawns_face_one_way_def elems_set_cell by (metis)

lemma pawns_face_move:
  assumes pf: "pawns_face_one_way b" and src: "elems b f = Piece fromCell"
    and mv: "move_cells b f t fromCell = Some b'"
  shows "pawns_face_one_way b'"
proof -
  have good: "ptype fromCell = Pawn \<Longrightarrow> dir fromCell = Some 1 \<or> dir fromCell = Some (- 1)"
    using pf src unfolding pawns_face_one_way_def by blast
  let ?b1 = "set_cell b t (Piece fromCell)"
  let ?b2 = "set_cell ?b1 f Null"
  have pf1: "pawns_face_one_way ?b1" by (rule pawns_face_set_cell[OF pf]) (use good in auto)
  have pf2: "pawns_face_one_way ?b2" by (rule pawns_face_set_cell[OF pf1]) simp
  from move_cells_Some[OF mv] obtain q where q: "ptype q = ptype fromCell"
    "dir q = dir fromCell \<or> (\<exists>d. dir fromCell = Some d \<and> dir q = Some (- d))"
    and b': "b' = ?b2 \<or> b' = set_cell ?b2 t (Piece q)"
    by blast
  have gq: "ptype q = Pawn \<Longrightarrow> dir q = Some 1 \<or> dir q = Some (- 1)"
    using good q by auto
  have "pawns_face_one_way (set_cell ?b2 t (Piece q))"
    by (rule pawns_face_set_cell[OF pf2]) (use gq in auto)
  with b' pf2 show ?thesis by auto
qed

lemma makeMove_pawns_face:
  assumes pf: "pawns_face_one_way (board gs)" and m: "makeMove gs pid d = Some (gs', r)"
  shows "pawns_face_one_way (board gs')"
  using m
proof (cases rule: makeMove_cases)
  case (rejected e)
  with pf show ?thesis by simp
next
  case (placed index ty idx pc)
  from placed(7) have "gs' = fst (finish_move (gs\<lparr>board := set_cell (board gs) index (Piece pc),
                                 pools := (pools gs)(pid := splice1 (pools gs pid) idx)\<rparr>))"
    by (metis fst_conv)
  moreover have "pawns_face_one_way (set_cell (board gs) index (Piece pc))"
    by (rule pawns_face_set_cell[OF pf]) (use placed(5,6) in auto)
  ultimately show ?thesis by (simp add: finish_move_board)
next
  case (moved f t fromCell b')
  from moved(8) have "gs' = fst (finish_move (gs\<lparr>board := b', pools := capture (pools gs) (elems (board gs) t) pid\<rparr>))"
    by (metis fst_conv)
  then show ?thesis
    using pawns_face_move[OF pf moved(3) moved(7)] by (simp add: finish_move_board)
next
  case other
  then have "gs' = fst (finish_move gs)" by (metis fst_conv)
  with pf show ?thesis by (simp add: finish_move_board)
qed

lemma placePiece_pawns_face:
  assumes pf: "pawns_face_one_way (board g)"
  shows "pawns_face_one_way (board (placePiece g pl ty index))"
proof (cases rule: placePiece_cases[of g pl ty index])
  case unchanged
  with pf show ?thesis by simp
next
  case (placed idx pc)
  have "pawns_face_one_way (set_cell (board g) index (Piece pc))"
    by (rule pawns_face_set_cell[OF pf]) (use placed(4,5) in auto)
  then show ?thesis by (simp add: placed(6) afterAction_board)
qed

lemma tryMovePiece_pawns_face:
  assumes pf: "pawns_face_one_way (board g)" and m: "tryMovePiece g f t = Some (ok, g')"
  shows "pawns_face_one_way (board g')"
  using m
proof (cases rule: tryMovePiece_cases)
  case rejected
  with pf show ?thesis by simp
next
  case (moved fromCell b')
  show ?thesis
    using pawns_face_move[OF pf moved(3) moved(8)] by (simp add: moved(9) afterAction_board)
qed

lemma aiTakeTurn_pawns_face:
  assumes pf: "pawns_face_one_way (board g)" and m: "aiTakeTurn g = Some g'"
  shows "pawns_face_one_way (board g')"
  using m
proof (cases rule: aiTakeTurn_cases)
  case unchanged
  with pf show ?thesis by simp
next
  case pass
  with pf show ?thesis by simp
next
  case (place index ty)
  with placePiece_pawns_face[OF pf] show ?thesis by simp
next
  case (move f t ok)
  from tryMovePiece_pawns_face[OF pf move(3)] show ?thesis .
qed

lemma server_reachable_pawns_face: "server_reachable gs \<Longrightarrow> pawns_face_one_way (board gs)"
proof (induction rule: server_reachable.induct)
  case init
  then show ?case by (simp add: createInitialGameState_def pawns_face_empty)
next
  case (step gs pid d gs' r)
  show ?case by (rule makeMove_pawns_face[OF step.IH step.hyps(2)])
qed

lemma local_reachable_pawns_face: "local_reachable g \<Longrightarrow> pawns_face_one_way (board g)"
proof (induction rule: local_reachable.induct)
  case init
  then show ?case by (simp add: initGame_def pawns_face_empty)
next
  case (place g pl ty index)
  show ?case by (rule placePiece_pawns_face[OF place.IH])
next
  case (move g fromIndex toIndex ok g')
  show ?case by (rule tryMovePiece_pawns_face[OF move.IH move.hyps(2)])
next
  case (ai g g')
  show ?case by (rule aiTakeTurn_pawns_face[OF ai.IH ai.hyps(2)])
qed

text \<open>
  Claim C10. In every state the server reaches, whatever the payloads, and in every state
  of the local game, every pawn on the board has the direction \<open>1\<close> or \<open>- 1\<close>; so
  the branch of the legality check that rejects a pawn without a direction is never taken
  for a pawn of the board.
\<close>

theorem pawn_facing_well_formed:
  "(server_reachable gs \<longrightarrow> pawns_face_one_way (board gs))
   \<and> (local_reachable g \<longrightarrow> pawns_face_one_way (board g))"
  using server_reachable_pawns_face local_reachable_pawns_face by blast

lemma x_pawn_on_last_row_run:
  "play x_pawn_on_last_row createInitialGameState \<noteq> None"
  "elems (board (the (play x_pawn_on_last_row createInitialGameState))) 12
     = Piece \<lparr>player = PLAYER_X, ptype = Pawn, dir = Some 1\<rparr>"
  by (simp_all add: x_pawn_on_last_row_def eval_defs)

theorem pawn_facing_witness:
  "server_reachable (the (play x_pawn_on_last_row createInitialGameState))
   \<and> elems (board (the (play x_pawn_on_last_row createInitialGameState))) 12
       = Piece \<lparr>player = PLAYER_X, ptype = Pawn, dir = Some 1\<rparr>
   \<and> pawns_face_one_way (board (the (play x_pawn_on_last_row createInitialGameState)))
   \<and> local_reachable (placePiece initGame PLAYER_X Pawn 0)
   \<and> elems (board (placePiece initGame PLAYER_X Pawn 0)) 0 = Piece x_pawn
   \<and> pawns_face_one_way (board (placePiece initGame PLAYER_X Pawn 0))"
proof -
  from x_pawn_on_last_row_run(1) obtain g1 where
    g1: "play x_pawn_on_last_row createInitialGameState = Some g1" by auto
  have 1: "server_reachable (the (play x_pawn_on_last_row createInitialGameState))"
    using play_reachable[OF server_reachable.init g1] g1 by simp
  have 2: "local_reachable (placePiece initGame PLAYER_X Pawn 0)"
    by (rule local_reachable.place[OF local_reachable.init])
  have 3: "elems (board (placePiece initGame PLAYER_X Pawn 0)) 0 = Piece x_pawn"
    by (simp add: place_pawn_0 elems_set_cell)
  show ?thesis
    using pawn_facing_well_formed[of "the (play x_pawn_on_last_row createInitialGameState)"
        "placePiece initGame PLAYER_X Pawn 0"] 1 2 3 x_pawn_on_last_row_run(2)
    by simp
qed

section \<open>The phase\<close>

lemma flexible_position_run:
  "play flexible_position createInitialGameState \<noteq> None"
  "bothPlayersHaveThree (board (the (play flexible_position createInitialGameState)))"
  by (simp_all add: flexible_position_def eval_defs)

lemma after_capture_run:
  "play after_capture createInitialGameState \<noteq> None"
  "\<not> bothPlayersHaveThree (board (the (play after_capture createInitialGameState)))"
  "map_option snd (makeMove (the (play after_capture createInitialGameState)) PLAYER_O (DataMove 6 2))
     = Some (Error CannotMoveYet)"
  by (simp_all add: after_capture_def flexible_position_def eval_defs path_while.simps)

text \<open>
  Claim C4 fails: the phase is recomputed from the board at every move. After the six
  placements both sides have three pieces on the board; the rook of X then captures the
  rook of O, which leaves O with two, and the next move that O submits is rejected with
  \<^verbatim>\<open>Cannot move yet\<close>.
\<close>

theorem phase_reverts_counterexample:
  "server_reachable (the (play flexible_position createInitialGameState))
   \<and> bothPlayersHaveThree (board (the (play flexible_position createInitialGameState)))
   \<and> play [(PLAYER_X, DataMove 0 1)] (the (play flexible_position createInitialGameState))
       = play after_capture createInitialGameState
   \<and> server_reachable (the (play after_capture createInitialGameState))
   \<and> map_option snd (makeMove (the (play after_capture createInitialGameState)) PLAYER_O (DataMove 6 2))
       = Some (Error CannotMoveYet)"
proof -
  from flexible_position_run(1) obtain g6 where
    g6: "play flexible_position createInitialGameState = Some g6" by auto
  from after_capture_run(1) obtain g7 where
    g7: "play after_capture createInitialGameState = Some g7" by auto
  have app: "play (xs @ ys) gs = (case play xs gs of None \<Rightarrow> None | Some gs' \<Rightarrow> play ys gs')"
    for xs ys gs
    by (induction xs arbitrary: gs) (auto split: option.splits)
  have "play [(PLAYER_X, DataMove 0 1)] g6 = play after_capture createInitialGameState"
    unfolding after_capture_def app g6 by simp
  with play_reachable[OF server_reachable.init g6] play_reachable[OF server_reachable.init g7]
    flexible_position_run(2) after_capture_run(3) g6 g7
  show ?thesis by simp
qed

lemma bothPlayersHaveThree_mono:
  assumes "bothPlayersHaveThree b" "\<And>pl. countPiecesOnBoard b pl \<le> countPiecesOnBoard b' pl"
  shows "bothPlayersHaveThree b'"
  using assms(1) assms(2)[of PLAYER_X] assms(2)[of PLAYER_O]
  by (simp add: bothPlayersHaveThree_def)

lemma makeMove_keeps_flexible:
  assumes wf: "wf_board (board gs)" and fl: "bothPlayersHaveThree (board gs)"
    and d: "data_on_board d" and m: "makeMove gs pid d = Some (gs', r)"
    and nocap: "\<And>f t. d = DataMove f t \<Longrightarrow> \<not> occupied (elems (board gs) t)"
  shows "bothPlayersHaveThree (board gs')"
  using m
proof (cases rule: makeMove_cases)
  case (rejected e)
  with fl show ?thesis by simp
next
  case (placed index ty idx pc)
  from placed(1) d have i: "0 \<le> index" "index < 16" by (simp_all add: cell_on_board_def)
  from placed(7) have gs': "gs' = fst (finish_move (gs\<lparr>board := set_cell (board gs) index (Piece pc),
                                 pools := (pools gs)(pid := splice1 (pools gs pid) idx)\<rparr>))"
    by (metis fst_conv)
  have "countPiecesOnBoard (board gs) pl \<le> countPiecesOnBoard (set_cell (board gs) index (Piece pc)) pl"
    for pl
    using count_set_cell_wf[OF wf i, of "Piece pc" pl] placed(2) by simp
  from bothPlayersHaveThree_mono[OF fl this] show ?thesis
    by (simp add: gs' finish_move_board)
next
  case (moved f t fromCell b')
  from moved(1) d have ft: "cell_on_board f" "cell_on_board t" by simp_all
  have ne: "f \<noteq> t" using moved(3,4,5) by auto
  from moved(8) have gs': "gs' = fst (finish_move (gs\<lparr>board := b', pools := capture (pools gs) (elems (board gs) t) pid\<rparr>))"
    by (metis fst_conv)
  have "\<not> cell_player_is (elems (board gs) t) pl" for pl
    using nocap[OF moved(1)] by (cases "elems (board gs) t") simp_all
  then have "countPiecesOnBoard (board gs) pl \<le> countPiecesOnBoard b' pl" for pl
    using count_after_move(2)[OF wf ft ne moved(3) moved(7), of pl] by simp
  from bothPlayersHaveThree_mono[OF fl this] show ?thesis
    by (simp add: gs' finish_move_board)
next
  case other
  then have "gs' = fst (finish_move gs)" by (metis fst_conv)
  with fl show ?thesis by (simp add: finish_move_board)
qed

text \<open>
  Claim C4, amended. In a game that is not over, a move submitted by the side to move is
  rejected with \<^verbatim>\<open>Cannot move yet\<close> exactly when some side has fewer than three pieces
  on the board at that moment. On a board of sixteen cells where both sides have three
  pieces, every action with indices on the board that the handler does not answer with
  a capture (a placement, a move onto an empty cell, a rejected action) leaves both sides
  with three pieces: only a capture returns the game to the placement phase.
\<close>

theorem phase_follows_current_counts:
  "(\<not> gameOver gs \<and> currentPlayer gs = pid \<longrightarrow>
      (makeMove gs pid (DataMove f t) = Some (gs, Error CannotMoveYet)
         \<longleftrightarrow> \<not> bothPlayersHaveThree (board gs)))
   \<and> (wf_board (board gs) \<and> bothPlayersHaveThree (board gs) \<and> data_on_board d
        \<and> makeMove gs pid d = Some (gs', r)
        \<and> (\<forall>f t. d = DataMove f t \<longrightarrow> \<not> occupied (elems (board gs) t))
      \<longrightarrow> bothPlayersHaveThree (board gs'))"
proof (intro conjI impI)
  assume a: "\<not> gameOver gs \<and> currentPlayer gs = pid"
  show "makeMove gs pid (DataMove f t) = Some (gs, Error CannotMoveYet)
         \<longleftrightarrow> \<not> bothPlayersHaveThree (board gs)"
  proof
    assume "\<not> bothPlayersHaveThree (board gs)"
    with a show "makeMove gs pid (DataMove f t) = Some (gs, Error CannotMoveYet)"
      by (simp add: makeMove_def)
  next
    assume m: "makeMove gs pid (DataMove f t) = Some (gs, Error CannotMoveYet)"
    show "\<not> bothPlayersHaveThree (board gs)"
    proof
      assume fl: "bothPlayersHaveThree (board gs)"
      have fin: "finish_move g \<noteq> (g', Error e)" for g g' e
        by (simp add: finish_move_def Let_def)
      from m a fl fin show False
        by (auto simp: makeMove_def Let_def split: cell.splits if_splits option.splits bool.splits)
    qed
  qed
next
  assume "wf_board (board gs) \<and> bothPlayersHaveThree (board gs) \<and> data_on_board d
        \<and> makeMove gs pid d = Some (gs', r)
        \<and> (\<forall>f t. d = DataMove f t \<longrightarrow> \<not> occupied (elems (board gs) t))"
  then show "bothPlayersHaveThree (board gs')"
    using makeMove_keeps_flexible[of gs d pid gs' r] by blast
qed

lemma flexible_position_more:
  "\<not> gameOver (the (play flexible_position createInitialGameState))"
  "currentPlayer (the (play flexible_position createInitialGameState)) = PLAYER_X"
  "makeMove (the (play flexible_position createInitialGameState)) PLAYER_X (DataPlace 15 Pawn) \<noteq> None"
  by (simp_all add: flexible_position_def eval_defs)

theorem phase_follows_current_counts_witness:
  "\<not> gameOver (the (play flexible_position createInitialGameState))
   \<and> currentPlayer (the (play flexible_position createInitialGameState)) = PLAYER_X
   \<and> bothPlayersHaveThree (board (the (play flexible_position createInitialGameState)))
   \<and> makeMove (the (play flexible_position createInitialGameState)) PLAYER_X (DataMove 0 4)
        \<noteq> Some (the (play flexible_position createInitialGameState), Error CannotMoveYet)
   \<and> wf_board (board (the (play flexible_position createInitialGameState)))
   \<and> data_on_board (DataPlace 15 Pawn)
   \<and> makeMove (the (play flexible_position createInitialGameState)) PLAYER_X (DataPlace 15 Pawn) \<noteq> None
   \<and> bothPlayersHaveThree (board (fst (the
         (makeMove (the (play flexible_position createInitialGameState)) PLAYER_X (DataPlace 15 Pawn)))))"
proof -
  let ?F = "the (play flexible_position createInitialGameState)"
  from flexible_position_run(1) obtain g6 where
    g6: "play flexible_position createInitialGameState = Some g6" by auto
  have ob: "list_all (\<lambda>(pid, d). data_on_board d) flexible_position"
    by (simp add: flexible_position_def cell_on_board_def)
  have "server_reachable_on_board ?F"
    using play_on_board_reachable[OF server_reachable_on_board.init ob g6] g6 by simp
  then have wf: "wf_board (board ?F)"
    using server_reachable_on_board_conserved by (simp add: conserved_def)
  from flexible_position_more(3) obtain g' r where
    m: "makeMove ?F PLAYER_X (DataPlace 15 Pawn) = Some (g', r)" by auto
  have d: "data_on_board (DataPlace 15 Pawn)" by (simp add: cell_on_board_def)
  show ?thesis
    using phase_follows_current_counts[of ?F PLAYER_X 0 4 "DataPlace 15 Pawn" g' r]
      flexible_position_more flexible_position_run(2) wf d m
    by simp
qed

section \<open>The action chosen by the search\<close>

subsection \<open>The search always returns\<close>

lemma enumerated_distinct_cells:
  "enumerated b pl (MoveAction i j) \<Longrightarrow> i \<noteq> j"
  by simp





subsection \<open>Bounds on the scores\<close>







subsection \<open>An action of O completes no line of X\<close>











subsection \<open>The position with a complete row of X\<close>










end
